theory Spec2Isabelle
  imports Main "HOL-Library.Sublist"
begin

section \<open>Reactive base: listener bookkeeping (common.ts, \<^verbatim>\<open>src/unnamed/part_000\<close>)\<close>

text \<open>
  \<^verbatim>\<open>const enum State { Push, Pull, OnlyPull, Inactive }\<close>.  The version of
  \<^verbatim>\<open>common.ts\<close> that \<^verbatim>\<open>future.ts\<close> imports has one more member,
  \<^verbatim>\<open>State.Done\<close>; it is listed here as well so that both files share the type.
\<close>

datatype State = Push | Pull | OnlyPull | Inactive | Done

text \<open>
  An \<^verbatim>\<open>Observer\<close> reference: \<^verbatim>\<open>undefined\<close>, a leaf observer (a
  \<^verbatim>\<open>PushOnlyObserver\<close> or \<^verbatim>\<open>CbObserver\<close>) or a \<^verbatim>\<open>MultiObserver\<close>, each
  known by its identity, so that \<^verbatim>\<open>===\<close> is equality of references.
\<close>

datatype observer = Undefined | Obs nat | MultiObserver nat

text \<open>
  What a call can end in other than a return: a \<^verbatim>\<open>TypeError\<close> of the runtime, an
  \<^verbatim>\<open>Error\<close> thrown by the code with its message, or, for the functions below that
  follow calls from object to object, the bound on the depth of the call chain.
\<close>

datatype error = TypeError | Error string | OutOfFuel

text \<open>A call either returns or throws; the object is mutated either way.\<close>

datatype 'r outcome = Returned 'r | Threw error

datatype hook = Activate | Deactivate

text \<open>
  The fields of \<^verbatim>\<open>Reactive\<close>, and the \<^verbatim>\<open>MultiObserver\<close> objects it has created:
  \<open>listeners m\<close> is the array \<^verbatim>\<open>listeners\<close> of the object \<open>MultiObserver m\<close>, which
  \<^verbatim>\<open>addListener\<close> and \<^verbatim>\<open>removeListener\<close> mutate in place.  \<open>hookLog\<close> is
  instrumentation: the calls of the abstract methods \<^verbatim>\<open>activate\<close> and
  \<^verbatim>\<open>deactivate\<close>, in order.
\<close>

record reactive =
  child :: observer
  nrOfListeners :: int
  state :: State
  hookLog :: "hook list"
  listeners :: "nat \<Rightarrow> observer list"
  nextMultiObserver :: nat

text \<open>\<^verbatim>\<open>constructor() { this.state = State.Inactive; this.nrOfListeners = 0; }\<close>\<close>

definition new_reactive :: reactive where
  "new_reactive = \<lparr>child = Undefined, nrOfListeners = 0, state = Inactive, hookLog = [],
                    listeners = (\<lambda>m. []), nextMultiObserver = 0\<rparr>"

text \<open>
  \<^verbatim>\<open>activate\<close> and \<^verbatim>\<open>deactivate\<close> are abstract in \<^verbatim>\<open>Reactive\<close>: the subclass's
  bodies are parameters \<open>act\<close> and \<open>deact\<close>.  The log entry is written after the body,
  so the body cannot alter the log.
\<close>

definition activate :: "(reactive \<Rightarrow> reactive) \<Rightarrow> reactive \<Rightarrow> reactive" where
  "activate act r = (act r)\<lparr>hookLog := hookLog r @ [Activate]\<rparr>"

definition deactivate :: "(reactive \<Rightarrow> reactive) \<Rightarrow> reactive \<Rightarrow> reactive" where
  "deactivate deact r = (deact r)\<lparr>hookLog := hookLog r @ [Deactivate]\<rparr>"

text \<open>\<^verbatim>\<open>new MultiObserver(c1, c2)\<close>: a new object with \<^verbatim>\<open>this.listeners = [c1, c2]\<close>.\<close>

definition new_MultiObserver :: "observer \<Rightarrow> observer \<Rightarrow> reactive \<Rightarrow> observer \<times> reactive" where
  "new_MultiObserver c1 c2 r =
     (MultiObserver (nextMultiObserver r),
      r\<lparr>listeners := (listeners r)(nextMultiObserver r := [c1, c2]),
        nextMultiObserver := Suc (nextMultiObserver r)\<rparr>)"

text \<open>
  \<^verbatim>\<open>addListener(c)\<close>.  In the last branch \<^verbatim>\<open>this.child.listeners.push(c)\<close> appends
  to the array of the \<^verbatim>\<open>MultiObserver\<close> in place; it throws when \<^verbatim>\<open>this.child\<close>
  is \<^verbatim>\<open>undefined\<close> or a leaf observer (which has no \<^verbatim>\<open>listeners\<close>); the counter
  has been incremented by then.
\<close>

definition addListener ::
  "(reactive \<Rightarrow> reactive) \<Rightarrow> observer \<Rightarrow> reactive \<Rightarrow> State outcome \<times> reactive" where
  "addListener act c r =
     (let nr = nrOfListeners r + 1;
          r1 = r\<lparr>nrOfListeners := nr\<rparr>
      in if nr = 1 then
           (let r2 = activate act (r1\<lparr>child := c\<rparr>) in (Returned (state r2), r2))
         else if nr = 2 then
           (case new_MultiObserver (child r1) c r1 of
              (m, r2) \<Rightarrow> (let r3 = r2\<lparr>child := m\<rparr> in (Returned (state r3), r3)))
         else
           (case child r1 of
              MultiObserver m \<Rightarrow>
                (let r2 = r1\<lparr>listeners := (listeners r1)(m := listeners r1 m @ [c])\<rparr>
                 in (Returned (state r2), r2))
            | _ \<Rightarrow> (Threw TypeError, r1)))"

text \<open>\<^verbatim>\<open>l[i]\<close>: reading a JavaScript array out of range gives \<^verbatim>\<open>undefined\<close>.\<close>

definition at_index :: "observer list \<Rightarrow> nat \<Rightarrow> observer" where
  "at_index l i = (if i < length l then l ! i else Undefined)"

text \<open>\<^verbatim>\<open>l.indexOf(x)\<close>: the first position of \<open>x\<close>, or \<open>None\<close> for \<^verbatim>\<open>-1\<close>.\<close>

fun indexOf :: "observer list \<Rightarrow> observer \<Rightarrow> nat option" where
  "indexOf [] x = None"
| "indexOf (y # ys) x = (if y = x then Some 0 else map_option Suc (indexOf ys x))"

text \<open>
  The removal of \<^verbatim>\<open>removeListener\<close>'s last branch: if the listener is found and is not
  the last element, the last element is copied over it; then \<^verbatim>\<open>l.length--\<close>.
\<close>

definition remove_from :: "observer list \<Rightarrow> observer \<Rightarrow> observer list" where
  "remove_from l x =
     (case indexOf l x of
        None \<Rightarrow> l
      | Some idx \<Rightarrow>
          butlast (if idx \<noteq> length l - 1 then l[idx := l ! (length l - 1)] else l))"

text \<open>
  \<^verbatim>\<open>removeListener(listener)\<close>.  Where \<^verbatim>\<open>this.child\<close> is cast to
  \<^verbatim>\<open>MultiObserver\<close> and is not one, \<^verbatim>\<open>l\<close> is \<^verbatim>\<open>undefined\<close> (or the read of
  \<^verbatim>\<open>.listeners\<close> itself fails) and the next use throws.  The last branch changes the
  array of the \<^verbatim>\<open>MultiObserver\<close> in place.
\<close>

definition removeListener ::
  "(reactive \<Rightarrow> reactive) \<Rightarrow> observer \<Rightarrow> reactive \<Rightarrow> unit outcome \<times> reactive" where
  "removeListener deact listener r =
     (let nr = nrOfListeners r - 1;
          r1 = r\<lparr>nrOfListeners := nr\<rparr>
      in if nr = 0 then
           (Returned (), deactivate deact (r1\<lparr>child := Undefined\<rparr>))
         else if nr = 1 then
           (case child r1 of
              MultiObserver m \<Rightarrow>
                (let l = listeners r1 m
                 in (Returned (), r1\<lparr>child := at_index l (if at_index l 0 = listener then 1 else 0)\<rparr>))
            | _ \<Rightarrow> (Threw TypeError, r1))
         else
           (case child r1 of
              MultiObserver m \<Rightarrow>
                (Returned (),
                 r1\<lparr>listeners := (listeners r1)(m := remove_from (listeners r1 m) listener)\<rparr>)
            | _ \<Rightarrow> (Threw TypeError, r1)))"

text \<open>
  A call of the public interface, and a sequence of calls made one after the other, as
  the statements of a function body are: the first throw ends it.
\<close>

datatype call = AddListener observer | RemoveListener observer

fun perform ::
  "(reactive \<Rightarrow> reactive) \<Rightarrow> (reactive \<Rightarrow> reactive) \<Rightarrow> call \<Rightarrow> reactive
     \<Rightarrow> unit outcome \<times> reactive" where
  "perform act deact (AddListener c) r =
     (case addListener act c r of
        (Returned st, r') \<Rightarrow> (Returned (), r')
      | (Threw e, r') \<Rightarrow> (Threw e, r'))"
| "perform act deact (RemoveListener c) r = removeListener deact c r"

fun run_calls ::
  "(reactive \<Rightarrow> reactive) \<Rightarrow> (reactive \<Rightarrow> reactive) \<Rightarrow> call list \<Rightarrow> reactive
     \<Rightarrow> unit outcome \<times> reactive" where
  "run_calls act deact [] r = (Returned (), r)"
| "run_calls act deact (c # cs) r =
     (case perform act deact c r of
        (Returned u, r') \<Rightarrow> run_calls act deact cs r'
      | (Threw e, r') \<Rightarrow> (Threw e, r'))"

text \<open>
  The callback of each leaf observer is a parameter: the calls of \<^verbatim>\<open>addListener\<close>
  and \<^verbatim>\<open>removeListener\<close> that the callback of the observer with a given identity
  makes on the reactive when it is called with a value
  (\<^verbatim>\<open>PushOnlyObserver.deactivate\<close> is \<^verbatim>\<open>this.source.removeListener(this)\<close>).
\<close>

type_synonym 'a callbacks = "nat \<Rightarrow> 'a \<Rightarrow> call list"

text \<open>
  \<^verbatim>\<open>push(a)\<close> on an observer, with the calls of the leaf callbacks appended to a
  trace in the order they are made.  \<^verbatim>\<open>MultiObserver.push\<close> is
  \<^verbatim>\<open>for (let i = 0; i < this.listeners.length; ++i) this.listeners[i].push(a)\<close>:
  \<open>push_listeners\<close> is the loop from index \<open>i\<close> on, which reads the length and the
  element from the array as it is at that step.  The walk is synchronous: the result holds
  the whole fan-out.  Calling \<^verbatim>\<open>push\<close> on \<^verbatim>\<open>undefined\<close> throws, and a throw ends
  the walk.  A listener that adds a listener at each call keeps the loop running for ever;
  the first argument after the callbacks bounds the number of steps.
\<close>

fun push ::
    "(reactive \<Rightarrow> reactive) \<Rightarrow> (reactive \<Rightarrow> reactive) \<Rightarrow> 'a callbacks \<Rightarrow> nat \<Rightarrow> observer \<Rightarrow> 'a
       \<Rightarrow> reactive \<times> (nat \<times> 'a) list \<Rightarrow> unit outcome \<times> reactive \<times> (nat \<times> 'a) list"
  and push_listeners ::
    "(reactive \<Rightarrow> reactive) \<Rightarrow> (reactive \<Rightarrow> reactive) \<Rightarrow> 'a callbacks \<Rightarrow> nat \<Rightarrow> nat \<Rightarrow> nat \<Rightarrow> 'a
       \<Rightarrow> reactive \<times> (nat \<times> 'a) list \<Rightarrow> unit outcome \<times> reactive \<times> (nat \<times> 'a) list" where
  "push act deact cb 0 ob a (r, tr) = (Threw OutOfFuel, r, tr)"
| "push act deact cb (Suc n) Undefined a (r, tr) = (Threw TypeError, r, tr)"
| "push act deact cb (Suc n) (Obs k) a (r, tr) =
     (case run_calls act deact (cb k a) r of (out, r') \<Rightarrow> (out, r', tr @ [(k, a)]))"
| "push act deact cb (Suc n) (MultiObserver m) a (r, tr) =
     push_listeners act deact cb n m 0 a (r, tr)"
| "push_listeners act deact cb 0 m i a (r, tr) = (Threw OutOfFuel, r, tr)"
| "push_listeners act deact cb (Suc n) m i a (r, tr) =
     (if i < length (listeners r m)
      then (case push act deact cb n (listeners r m ! i) a (r, tr) of
              (Returned u, s) \<Rightarrow> push_listeners act deact cb n m (Suc i) a s
            | (Threw e, s) \<Rightarrow> (Threw e, s))
      else (Returned (), r, tr))"



text \<open>
  The callback of the observer \<open>x\<close> subscribes the observer \<open>z\<close>
  (\<^verbatim>\<open>source.addListener(z)\<close>); the others only take their argument.
\<close>

definition subscribing_listener :: "nat \<Rightarrow> nat \<Rightarrow> 'a callbacks" where
  "subscribing_listener x z k a = (if k = x then [AddListener (Obs z)] else [])"

text \<open>
  What the spec's lifecycle says of a subclass's \<^verbatim>\<open>activate\<close> and
  \<^verbatim>\<open>deactivate\<close>: activation adopts a state derived from the parents (not
  \<open>Inactive\<close>), deactivation returns to \<open>Inactive\<close>, and neither touches the
  listener counter or \<^verbatim>\<open>child\<close>.
\<close>

definition lifecycle_hooks :: "(reactive \<Rightarrow> reactive) \<Rightarrow> (reactive \<Rightarrow> reactive) \<Rightarrow> bool" where
  "lifecycle_hooks act deact \<longleftrightarrow>
     (\<forall>r. state (act r) \<noteq> Inactive \<and> nrOfListeners (act r) = nrOfListeners r
          \<and> child (act r) = child r) \<and>
     (\<forall>r. state (deact r) = Inactive \<and> nrOfListeners (deact r) = nrOfListeners r
          \<and> child (deact r) = child r)"

text \<open>
  Modelled from the spec: the body of a subclass's \<^verbatim>\<open>activate\<close> or
  \<^verbatim>\<open>deactivate\<close> (no subclass of this \<^verbatim>\<open>Reactive\<close> is in the sources), which
  adopts the given state.
\<close>

definition adopt :: "State \<Rightarrow> reactive \<Rightarrow> reactive" where
  "adopt st r = r\<lparr>state := st\<rparr>"

text \<open>
  The reactives after \<^verbatim>\<open>addListener\<close> of the observers 1, 2 and of the observers
  1, 2, 3 on a new reactive.
\<close>

definition two_listeners :: reactive where
  "two_listeners =
     snd (run_calls (adopt Push) (adopt Inactive)
            [AddListener (Obs 1), AddListener (Obs 2)] new_reactive)"


section \<open>Semantic futures (future.ts)\<close>

text \<open>
  A time is a JavaScript number: a tick of the clock (an integer), or
  \<^verbatim>\<open>-Infinity\<close>, the time of an \<^verbatim>\<open>OfFuture\<close>.
\<close>

datatype Time = NegInfinity | Tick int

fun number_le :: "Time \<Rightarrow> Time \<Rightarrow> bool" where
  "number_le NegInfinity t = True"
| "number_le (Tick a) NegInfinity = False"
| "number_le (Tick a) (Tick b) = (a \<le> b)"

text \<open>
  \<^verbatim>\<open>SemanticFuture<A> = Occurrence<A> | typeof neverOccurringFuture\<close>, the latter with
  \<^verbatim>\<open>time: "infinity"\<close> (a string).
\<close>

datatype 'a SemanticFuture = Occurrence Time 'a | neverOccurringFuture

text \<open>
  \<^verbatim>\<open>a.time <= b.time\<close>.  Two numbers compare as numbers; the string
  \<^verbatim>\<open>"infinity"\<close> against itself compares as a string and is equal; against a
  number it converts to \<^verbatim>\<open>NaN\<close> and the comparison is false.
\<close>

fun time_le :: "'a SemanticFuture \<Rightarrow> 'a SemanticFuture \<Rightarrow> bool" where
  "time_le (Occurrence s x) (Occurrence t y) = number_le s t"
| "time_le neverOccurringFuture neverOccurringFuture = True"
| "time_le (Occurrence s x) neverOccurringFuture = False"
| "time_le neverOccurringFuture (Occurrence t y) = False"

text \<open>
  The future classes as they are constructed; \<^verbatim>\<open>semantic()\<close> reads only the
  constructor's arguments.
\<close>

datatype 'a Future =
    CombineFuture "'a Future" "'a Future"
  | MapFuture "'a \<Rightarrow> 'a" "'a Future"
  | MapToFuture 'a "'a Future"
  | OfFuture 'a
  | NeverFuture
  | SinkFuture
  | TestFuture Time 'a

fun semantic :: "'a Future \<Rightarrow> error + 'a SemanticFuture" where
  "semantic (CombineFuture future1 future2) =
     (case semantic future1 of
        Inl e \<Rightarrow> Inl e
      | Inr a \<Rightarrow>
          (case semantic future2 of
             Inl e \<Rightarrow> Inl e
           | Inr b \<Rightarrow> Inr (if time_le a b then a else b)))"
| "semantic (MapFuture f parent) =
     (case semantic parent of
        Inl e \<Rightarrow> Inl e
      | Inr (Occurrence t v) \<Rightarrow> Inr (Occurrence t (f v))
      | Inr neverOccurringFuture \<Rightarrow> Inr neverOccurringFuture)"
| "semantic (MapToFuture val parent) =
     (case semantic parent of
        Inl e \<Rightarrow> Inl e
      | Inr (Occurrence t v) \<Rightarrow> Inr (Occurrence t val)
      | Inr neverOccurringFuture \<Rightarrow> Inr neverOccurringFuture)"
| "semantic (OfFuture val) = Inr (Occurrence NegInfinity val)"
| "semantic NeverFuture = Inr neverOccurringFuture"
| "semantic SinkFuture = Inl (Error ''The SinkFuture does not have a semantic representation'')"
| "semantic (TestFuture t val) = Inr (Occurrence t val)"

section \<open>Futures as objects (future.ts)\<close>

text \<open>A JavaScript value: \<^verbatim>\<open>undefined\<close>, a number, a string or an array.\<close>

datatype val = VUndefined | VNum int | VStr string | VArr "val list"

text \<open>
  A listener entry of a future (\<^verbatim>\<open>Node<SListener<A>>\<close>): the observer made by
  \<^verbatim>\<open>subscribe(callback)\<close>, known by its callback, or a future that has this one
  among its parents.
\<close>

datatype listener = Subscriber nat | Child nat

text \<open>The future classes that take part in pushing, with their constructor arguments.\<close>

datatype fkind =
    SinkNode
  | CombineNode nat nat
  | MapNode "val \<Rightarrow> val" nat
  | MapToNode nat
  | OfNode
  | NeverNode

text \<open>
  The fields of a \<^verbatim>\<open>Future\<close>: \<^verbatim>\<open>state\<close>, \<^verbatim>\<open>value\<close> and \<^verbatim>\<open>children\<close> as
  \<^verbatim>\<open>future.ts\<close> uses them; \<open>listenerNodes\<close> are the parents on which this future
  has registered a node.
\<close>

record future =
  kind :: fkind
  fstate :: State
  fvalue :: val
  children :: "listener list"
  listenerNodes :: "nat list"

text \<open>
  The objects, by identity, and \<open>notified\<close>, the calls of subscribers' callbacks in
  the order they are made.
\<close>

record fworld =
  futures :: "nat \<Rightarrow> future"
  nextFuture :: nat
  notified :: "(nat \<times> val) list"

definition upd_future :: "nat \<Rightarrow> (future \<Rightarrow> future) \<Rightarrow> fworld \<Rightarrow> fworld" where
  "upd_future f g w = w\<lparr>futures := (futures w)(f := g (futures w f))\<rparr>"

text \<open>\<^verbatim>\<open>this.parents\<close>, as each constructor sets it.\<close>

fun parents :: "fkind \<Rightarrow> nat list" where
  "parents (CombineNode future1 future2) = [future1, future2]"
| "parents (MapNode f parent) = [parent]"
| "parents (MapToNode parent) = [parent]"
| "parents SinkNode = []"
| "parents OfNode = []"
| "parents NeverNode = []"

text \<open>A loop over an array that stops at the first throw.\<close>

fun iterate :: "('x \<Rightarrow> 'w \<Rightarrow> error + 'w) \<Rightarrow> 'x list \<Rightarrow> 'w \<Rightarrow> error + 'w" where
  "iterate step [] w = Inr w"
| "iterate step (x # xs) w =
     (case step x w of Inl e \<Rightarrow> Inl e | Inr w' \<Rightarrow> iterate step xs w')"

definition and_then :: "error + 'w \<Rightarrow> ('w \<Rightarrow> error + 'v) \<Rightarrow> error + 'v" where
  "and_then m k = (case m of Inl e \<Rightarrow> Inl e | Inr w \<Rightarrow> k w)"

text \<open>
  Modelled from the spec: the join of the parents' states that a reactive adopts on
  activation (the base class of this version is not in the sources): \<open>OnlyPull\<close> if
  any parent is, else \<open>Push\<close> if any parent is, else \<open>Pull\<close>.
\<close>

definition join_states :: "State list \<Rightarrow> State" where
  "join_states sts =
     (if OnlyPull \<in> set sts then OnlyPull else if Push \<in> set sts then Push else Pull)"

text \<open>
  A method call on an object.  A method's body is written with \<open>self\<close> standing for
  "make this call"; \<open>invoke\<close> below closes the recursion and bounds the depth of the
  chain of calls from object to object, each call using one unit.
\<close>

datatype request =
    Resolve nat val int
  | PushSToChildren nat int val
  | PushS listener int val
  | AddListenerOn nat listener int
  | ActivateOn nat int
  | RemoveListenerOn nat listener
  | DeactivateOn bool nat

type_synonym dispatch = "request \<Rightarrow> fworld \<Rightarrow> error + fworld"

text \<open>
  \<^verbatim>\<open>resolve\<close>, \<^verbatim>\<open>pushSToChildren\<close>, the \<^verbatim>\<open>pushS\<close> of each class, the
  \<open>Done\<close> branch of \<^verbatim>\<open>addListener\<close> and the empty \<^verbatim>\<open>activate\<close> of
  \<^verbatim>\<open>ActiveFuture\<close> are those of \<^verbatim>\<open>future.ts\<close>.

  Modelled from the spec: the methods of the base class \<^verbatim>\<open>Reactive\<close> that this
  version of \<^verbatim>\<open>future.ts\<close> extends, and the observer of \<^verbatim>\<open>subscribe\<close>, none of
  which is in the sources.
  \<^item> \<^verbatim>\<open>super.addListener\<close> links the node at the end of the listeners; if there was
    none, it invokes \<^verbatim>\<open>activate\<close>; it returns the current state.
  \<^item> \<^verbatim>\<open>activate\<close> subscribes to all parents, in order, and adopts the join of their
    states, unless the future is \<open>Done\<close> by then.
  \<^item> \<^verbatim>\<open>removeListener\<close> unlinks the node; if no listener is left and the future is
    not \<open>Done\<close>, it invokes \<^verbatim>\<open>deactivate\<close>.
  \<^item> \<^verbatim>\<open>deactivate(done)\<close> unsubscribes from the parents; the state becomes
    \<open>Done\<close> if \<open>done\<close>, else \<open>Inactive\<close>.
  \<^item> The iteration over \<^verbatim>\<open>this.children\<close> visits the listeners attached when it
    starts, in the order of insertion.
  \<^item> The \<^verbatim>\<open>pushS\<close> of a subscriber calls its callback with the value.
\<close>

definition resolve :: "dispatch \<Rightarrow> nat \<Rightarrow> val \<Rightarrow> int \<Rightarrow> fworld \<Rightarrow> error + fworld" where
  "resolve self f val t w =
     and_then (self (DeactivateOn True f) w)
       (\<lambda>w1. self (PushSToChildren f t val) (upd_future f (\<lambda>x. x\<lparr>fvalue := val\<rparr>) w1))"

definition pushSToChildren :: "dispatch \<Rightarrow> nat \<Rightarrow> int \<Rightarrow> val \<Rightarrow> fworld \<Rightarrow> error + fworld" where
  "pushSToChildren self f t val w =
     iterate (\<lambda>c. self (PushS c t val)) (children (futures w f)) w"

fun pushS :: "dispatch \<Rightarrow> listener \<Rightarrow> int \<Rightarrow> val \<Rightarrow> fworld \<Rightarrow> error + fworld" where
  "pushS self (Subscriber cb) t val w = Inr (w\<lparr>notified := notified w @ [(cb, val)]\<rparr>)"
| "pushS self (Child g) t val w =
     (case kind (futures w g) of
        CombineNode future1 future2 \<Rightarrow> self (Resolve g val t) w
      | MapNode fn parent \<Rightarrow> self (Resolve g (fn val) t) w
      | MapToNode parent \<Rightarrow> self (Resolve g (fvalue (futures w g)) t) w
      | OfNode \<Rightarrow> Inl (Error ''A PureFuture should never be pushed to.'')
      | NeverNode \<Rightarrow> Inl (Error ''A NeverFuture should never be pushed to.'')
      | SinkNode \<Rightarrow> Inl (Error ''A sink should not be pushed to.''))"

definition addListener_future ::
  "dispatch \<Rightarrow> nat \<Rightarrow> listener \<Rightarrow> int \<Rightarrow> fworld \<Rightarrow> error + State \<times> fworld" where
  "addListener_future self f node t w =
     (if fstate (futures w f) = Done then
        and_then (self (PushS node t (fvalue (futures w f))) w) (\<lambda>w1. Inr (Done, w1))
      else
        (let firstChild = (children (futures w f) = []);
             w1 = upd_future f (\<lambda>x. x\<lparr>children := children x @ [node]\<rparr>) w
         in and_then (if firstChild then self (ActivateOn f t) w1 else Inr w1)
              (\<lambda>w2. Inr (fstate (futures w2 f), w2))))"

definition activate_future :: "dispatch \<Rightarrow> nat \<Rightarrow> int \<Rightarrow> fworld \<Rightarrow> error + fworld" where
  "activate_future self f t w =
     (case kind (futures w f) of
        SinkNode \<Rightarrow> Inr w
      | k \<Rightarrow>
          and_then
            (iterate
               (\<lambda>p w1. and_then (self (AddListenerOn p (Child f) t) w1)
                  (\<lambda>w2. Inr (upd_future f
                     (\<lambda>x. x\<lparr>listenerNodes := listenerNodes x @ [p]\<rparr>) w2)))
               (parents k) w)
            (\<lambda>w3. Inr (if fstate (futures w3 f) = Done then w3
                        else upd_future f
                          (\<lambda>x. x\<lparr>fstate := join_states
                                   (map (\<lambda>p. fstate (futures w3 p)) (parents k))\<rparr>) w3)))"

definition removeListener_future ::
  "dispatch \<Rightarrow> nat \<Rightarrow> listener \<Rightarrow> fworld \<Rightarrow> error + fworld" where
  "removeListener_future self f node w =
     (let w1 = upd_future f (\<lambda>x. x\<lparr>children := remove1 node (children x)\<rparr>) w
      in if children (futures w1 f) = [] \<and> fstate (futures w1 f) \<noteq> Done
         then self (DeactivateOn False f) w1
         else Inr w1)"

definition deactivate_future :: "dispatch \<Rightarrow> bool \<Rightarrow> nat \<Rightarrow> fworld \<Rightarrow> error + fworld" where
  "deactivate_future self done f w =
     and_then
       (iterate (\<lambda>p. self (RemoveListenerOn p (Child f))) (listenerNodes (futures w f)) w)
       (\<lambda>w1. Inr (upd_future f
                 (\<lambda>x. x\<lparr>listenerNodes := [], fstate := (if done then Done else Inactive)\<rparr>) w1))"

primrec invoke :: "nat \<Rightarrow> request \<Rightarrow> fworld \<Rightarrow> error + fworld" where
  "invoke 0 = (\<lambda>r w. Inl OutOfFuel)"
| "invoke (Suc n) = (\<lambda>r w.
     (case r of
        Resolve f val t \<Rightarrow> resolve (invoke n) f val t w
      | PushSToChildren f t val \<Rightarrow> pushSToChildren (invoke n) f t val w
      | PushS l t val \<Rightarrow> pushS (invoke n) l t val w
      | AddListenerOn f node t \<Rightarrow>
          and_then (addListener_future (invoke n) f node t w) (\<lambda>(st, w1). Inr w1)
      | ActivateOn f t \<Rightarrow> activate_future (invoke n) f t w
      | RemoveListenerOn f node \<Rightarrow> removeListener_future (invoke n) f node w
      | DeactivateOn done f \<Rightarrow> deactivate_future (invoke n) done f w))"

text \<open>
  The constructors: a new object, with the state its constructor sets
  (\<^verbatim>\<open>ActiveFuture\<close>: \<open>Push\<close>; \<^verbatim>\<open>OfFuture\<close>, \<^verbatim>\<open>NeverFuture\<close>: \<open>Done\<close>;
  otherwise \<open>Inactive\<close>) and its value.
\<close>

definition new_future :: "fkind \<Rightarrow> State \<Rightarrow> val \<Rightarrow> fworld \<Rightarrow> nat \<times> fworld" where
  "new_future k st v w =
     (nextFuture w,
      w\<lparr>futures := (futures w)(nextFuture w :=
           \<lparr>kind = k, fstate = st, fvalue = v, children = [], listenerNodes = []\<rparr>),
        nextFuture := Suc (nextFuture w)\<rparr>)"

definition sinkFuture :: "fworld \<Rightarrow> nat \<times> fworld" where
  "sinkFuture w = new_future SinkNode Push VUndefined w"


definition of_future :: "val \<Rightarrow> fworld \<Rightarrow> nat \<times> fworld" where
  "of_future v w = new_future OfNode Done v w"

text \<open>
  Modelled from the spec: \<^verbatim>\<open>subscribe(callback)\<close> registers the callback's observer
  with \<^verbatim>\<open>addListener\<close> (the observer class of this version is not in the sources).
\<close>

definition subscribe_future :: "dispatch \<Rightarrow> nat \<Rightarrow> nat \<Rightarrow> int \<Rightarrow> fworld \<Rightarrow> error + fworld" where
  "subscribe_future self cb f t w = self (AddListenerOn f (Subscriber cb) t) w"

definition empty_fworld :: fworld where
  "empty_fworld =
     \<lparr>futures = (\<lambda>i. \<lparr>kind = NeverNode, fstate = Done, fvalue = VUndefined, children = [],
                       listenerNodes = []\<rparr>),
      nextFuture = 0, notified = []\<rparr>"

text \<open>\<^verbatim>\<open>f.state\<close> and \<^verbatim>\<open>f.value\<close> of the future \<open>f\<close>.\<close>

definition state_of :: "nat \<Rightarrow> fworld \<Rightarrow> State" where
  "state_of f w = fstate (futures w f)"

definition value_of :: "nat \<Rightarrow> fworld \<Rightarrow> val" where
  "value_of f w = fvalue (futures w f)"


text \<open>A world with one sink future, object \<open>0\<close>, that has the given subscribers.\<close>

definition example_sink :: "nat list \<Rightarrow> fworld" where
  "example_sink cbs =
     \<lparr>futures = (futures empty_fworld)(0 :=
        \<lparr>kind = SinkNode, fstate = Push, fvalue = VUndefined, children = map Subscriber cbs,
         listenerNodes = []\<rparr>),
      nextFuture = 1, notified = []\<rparr>"

section \<open>Streams (Stream.ts)\<close>

text \<open>The stream classes, with the constructor arguments that \<^verbatim>\<open>push\<close> uses.\<close>

datatype skind =
    SinkStream
  | MapStream "val \<Rightarrow> val"
  | FilterStream "val \<Rightarrow> bool"
  | ScanStream "val \<Rightarrow> val \<Rightarrow> val"
  | SnapshotStream nat
  | SnapshotWithStream "val \<Rightarrow> val \<Rightarrow> val" nat

text \<open>
  The fields of \<^verbatim>\<open>Stream\<close>: \<^verbatim>\<open>last\<close>, \<^verbatim>\<open>eventListeners\<close> (the consumers
  pushed into it are streams, known by identity) and \<^verbatim>\<open>cbListeners\<close> (functions,
  known by identity).
\<close>

record stream =
  variant :: skind
  last' :: val
  eventListeners :: "nat list"
  cbListeners :: "nat list"

text \<open>
  The stream objects by identity.  Modelled from the spec: \<open>behaviors\<close> gives the
  current value of each behavior, which is what \<^verbatim>\<open>at(behavior)\<close> returns
  (\<^verbatim>\<open>Behavior.ts\<close> is not in the sources).  \<open>called\<close> and \<open>occurrences\<close> are
  instrumentation: the calls of callbacks, and the calls of \<^verbatim>\<open>publish\<close> with the
  stream they are made on, in order.
\<close>

record sworld =
  streams :: "nat \<Rightarrow> stream"
  nextStream :: nat
  behaviors :: "nat \<Rightarrow> val"
  called :: "(nat \<times> val) list"
  occurrences :: "(nat \<times> val) list"

text \<open>
  The body of each callback is a parameter: what the callback with a given identity
  does to the world when it is called with a value, the entries of the calls and
  publishes it makes included.
\<close>

type_synonym handler = "nat \<Rightarrow> val \<Rightarrow> sworld \<Rightarrow> sworld"

definition upd_stream :: "nat \<Rightarrow> (stream \<Rightarrow> stream) \<Rightarrow> sworld \<Rightarrow> sworld" where
  "upd_stream s g w = w\<lparr>streams := (streams w)(s := g (streams w s))\<rparr>"

definition at_behavior :: "nat \<Rightarrow> sworld \<Rightarrow> val" where
  "at_behavior b w = behaviors w b"

text \<open>
  \<^verbatim>\<open>for (; i < l; i++) body(i)\<close>, with the bound \<open>l\<close> read before the loop; it stops
  at the first throw.
\<close>

function for_loop :: "(nat \<Rightarrow> 'w \<Rightarrow> error + 'w) \<Rightarrow> nat \<Rightarrow> nat \<Rightarrow> 'w \<Rightarrow> error + 'w" where
  "for_loop body i l w =
     (if i < l
      then (case body i w of Inl e \<Rightarrow> Inl e | Inr w' \<Rightarrow> for_loop body (Suc i) l w')
      else Inr w)"
  by pat_completeness auto
termination
  by (relation "measure (\<lambda>(body, i, l, w). l - i)") auto

text \<open>
  The call \<^verbatim>\<open>c(a)\<close> of a callback: the call is logged, then the callback's body runs
  on the world with that entry; what the body subscribes, calls and publishes is in the
  world it returns.
\<close>

definition call_callback :: "handler \<Rightarrow> val \<Rightarrow> sworld \<Rightarrow> nat \<Rightarrow> sworld" where
  "call_callback H a w c = H c a (w\<lparr>called := called w @ [(c, a)]\<rparr>)"

text \<open>
  \<^verbatim>\<open>this.cbListeners[i](a)\<close>: the array is read when the call is made; calling
  \<^verbatim>\<open>undefined\<close> throws.
\<close>

definition notify_callback :: "handler \<Rightarrow> nat \<Rightarrow> val \<Rightarrow> nat \<Rightarrow> sworld \<Rightarrow> error + sworld" where
  "notify_callback H s a i w =
     (let cbs = cbListeners (streams w s)
      in if i < length cbs then Inr (call_callback H a w (cbs ! i)) else Inl TypeError)"

text \<open>
  \<^verbatim>\<open>push(a)\<close> of each class; \<open>self\<close> stands for a call of \<^verbatim>\<open>publish\<close> on a
  stream.
\<close>

definition push_stream ::
  "(nat \<Rightarrow> val \<Rightarrow> sworld \<Rightarrow> error + sworld) \<Rightarrow> nat \<Rightarrow> val \<Rightarrow> sworld \<Rightarrow> error + sworld" where
  "push_stream self s a w =
     (case variant (streams w s) of
        SinkStream \<Rightarrow> self s a w
      | MapStream fn \<Rightarrow> self s (fn a) w
      | FilterStream fn \<Rightarrow> (if fn a then self s a w else Inr w)
      | ScanStream fn \<Rightarrow> self s (fn a (last' (streams w s))) w
      | SnapshotStream behavior \<Rightarrow> self s (VArr [a, at_behavior behavior w]) w
      | SnapshotWithStream fn behavior \<Rightarrow> self s (fn a (at_behavior behavior w)) w)"

text \<open>\<^verbatim>\<open>this.eventListeners[i].push(a)\<close>.\<close>

definition notify_consumer ::
  "(nat \<Rightarrow> val \<Rightarrow> sworld \<Rightarrow> error + sworld) \<Rightarrow> nat \<Rightarrow> val \<Rightarrow> nat \<Rightarrow> sworld \<Rightarrow> error + sworld" where
  "notify_consumer self s a i w =
     (let es = eventListeners (streams w s)
      in if i < length es then push_stream self (es ! i) a w else Inl TypeError)"

text \<open>\<^verbatim>\<open>publish(a)\<close>: the assignment to \<^verbatim>\<open>this.last\<close>, then the two walks over the listeners.\<close>

definition publish ::
  "(nat \<Rightarrow> val \<Rightarrow> sworld \<Rightarrow> error + sworld) \<Rightarrow> handler \<Rightarrow> nat \<Rightarrow> val \<Rightarrow> sworld \<Rightarrow> error + sworld" where
  "publish self H s a w =
     (let w1 = (upd_stream s (\<lambda>x. x\<lparr>last' := a\<rparr>) w)\<lparr>occurrences := occurrences w @ [(s, a)]\<rparr>;
          l = length (cbListeners (streams w1 s))
      in and_then (for_loop (notify_callback H s a) 0 l w1)
           (\<lambda>w2. for_loop (notify_consumer self s a) 0 (length (eventListeners (streams w2 s))) w2))"

text \<open>
  \<^verbatim>\<open>publish\<close> with its calls to the consumers followed; the first argument bounds
  the depth of the chain of streams.
\<close>

primrec stream_publish :: "nat \<Rightarrow> handler \<Rightarrow> nat \<Rightarrow> val \<Rightarrow> sworld \<Rightarrow> error + sworld" where
  "stream_publish 0 H = (\<lambda>s a w. Inl OutOfFuel)"
| "stream_publish (Suc n) H = (\<lambda>s a w. publish (stream_publish n H) H s a w)"

text \<open>The constructors and the methods that build streams.\<close>

definition new_stream :: "skind \<Rightarrow> val \<Rightarrow> sworld \<Rightarrow> nat \<times> sworld" where
  "new_stream k v w =
     (nextStream w,
      w\<lparr>streams := (streams w)(nextStream w :=
           \<lparr>variant = k, last' = v, eventListeners = [], cbListeners = []\<rparr>),
        nextStream := Suc (nextStream w)\<rparr>)"

definition sinkStream :: "sworld \<Rightarrow> nat \<times> sworld" where
  "sinkStream w = new_stream SinkStream VUndefined w"

definition listen :: "nat \<Rightarrow> nat \<times> sworld \<Rightarrow> nat \<times> sworld" where
  "listen s ew = (fst ew, upd_stream s (\<lambda>x. x\<lparr>eventListeners := eventListeners x @ [fst ew]\<rparr>) (snd ew))"

definition map_stream :: "(val \<Rightarrow> val) \<Rightarrow> nat \<Rightarrow> sworld \<Rightarrow> nat \<times> sworld" where
  "map_stream fn s w = listen s (new_stream (MapStream fn) VUndefined w)"

definition filter_stream :: "(val \<Rightarrow> bool) \<Rightarrow> nat \<Rightarrow> sworld \<Rightarrow> nat \<times> sworld" where
  "filter_stream fn s w = listen s (new_stream (FilterStream fn) VUndefined w)"

definition scan :: "(val \<Rightarrow> val \<Rightarrow> val) \<Rightarrow> val \<Rightarrow> nat \<Rightarrow> sworld \<Rightarrow> nat \<times> sworld" where
  "scan fn startingValue s w = listen s (new_stream (ScanStream fn) startingValue w)"

definition snapshot :: "nat \<Rightarrow> nat \<Rightarrow> sworld \<Rightarrow> nat \<times> sworld" where
  "snapshot behavior s w = listen s (new_stream (SnapshotStream behavior) VUndefined w)"

definition snapshotWith :: "(val \<Rightarrow> val \<Rightarrow> val) \<Rightarrow> nat \<Rightarrow> nat \<Rightarrow> sworld \<Rightarrow> nat \<times> sworld" where
  "snapshotWith fn behavior s w =
     listen s (new_stream (SnapshotWithStream fn behavior) VUndefined w)"

definition subscribe :: "nat \<Rightarrow> nat \<Rightarrow> sworld \<Rightarrow> sworld" where
  "subscribe fn s w = upd_stream s (\<lambda>x. x\<lparr>cbListeners := cbListeners x @ [fn]\<rparr>) w"

definition empty_sworld :: sworld where
  "empty_sworld =
     \<lparr>streams = (\<lambda>i. \<lparr>variant = SinkStream, last' = VUndefined, eventListeners = [],
                       cbListeners = []\<rparr>),
      nextStream = 0, behaviors = (\<lambda>b. VUndefined), called = [], occurrences = []\<rparr>"

text \<open>A callback that only takes its argument.\<close>

definition spy :: handler where
  "spy c a w = w"

text \<open>
  The callback \<open>0\<close> of this handler, when called, runs
  \<^verbatim>\<open>s.map(x => x).subscribe(cb1)\<close> on the stream \<open>0\<close>; the other callbacks only take
  their argument.
\<close>

definition mapping_callback :: handler where
  "mapping_callback c a w =
     (if c = 0 then subscribe 1 (fst (map_stream (\<lambda>x. x) 0 w)) (snd (map_stream (\<lambda>x. x) 0 w))
      else w)"

text \<open>The values of the occurrences published on a stream, in order.\<close>

definition occurrences_of :: "nat \<Rightarrow> sworld \<Rightarrow> val list" where
  "occurrences_of s w = map snd (filter (\<lambda>oc. fst oc = s) (occurrences w))"

text \<open>\<^verbatim>\<open>s.last\<close> of the stream \<open>s\<close>.\<close>

definition last_of :: "nat \<Rightarrow> sworld \<Rightarrow> val" where
  "last_of s w = last' (streams w s)"

text \<open>Modelled from the spec: a behavior whose current value is \<open>v\<close>.\<close>

definition set_behavior :: "nat \<Rightarrow> val \<Rightarrow> sworld \<Rightarrow> sworld" where
  "set_behavior b v w = w\<lparr>behaviors := (behaviors w)(b := v)\<rparr>"

text \<open>
  Callbacks whose bodies leave the stream objects as they are, publish on no stream and
  call no callback, so that the logs are as they were.
\<close>

definition inert :: "handler \<Rightarrow> bool" where
  "inert H \<longleftrightarrow>
     (\<forall>c a w. streams (H c a w) = streams w \<and> called (H c a w) = called w
             \<and> occurrences (H c a w) = occurrences w)"

text \<open>
  Every consumer was created after the stream it listens to, and below the bound
  \<open>N\<close>: this is how \<^verbatim>\<open>map\<close>, \<^verbatim>\<open>filter\<close>, \<^verbatim>\<open>scan\<close> and \<^verbatim>\<open>snapshot\<close> build
  the graph, each pushing a new stream on the listeners of an existing one.
\<close>

definition ordered :: "nat \<Rightarrow> sworld \<Rightarrow> bool" where
  "ordered N w \<longleftrightarrow> (\<forall>s. \<forall>e \<in> set (eventListeners (streams w s)). s < e \<and> e < N)"

text \<open>Two worlds with the same streams, listeners and classes; only \<^verbatim>\<open>last\<close> may differ.\<close>

definition same_shape :: "sworld \<Rightarrow> sworld \<Rightarrow> bool" where
  "same_shape w w' \<longleftrightarrow>
     (\<forall>x. variant (streams w' x) = variant (streams w x)
        \<and> eventListeners (streams w' x) = eventListeners (streams w x)
        \<and> cbListeners (streams w' x) = cbListeners (streams w x))"

text \<open>
  The streams of the two functor laws after
  \<^verbatim>\<open>mi = s.map(x => x); m1 = s.map(f); m2 = m1.map(g); m3 = s.map(x => g(f(x)))\<close>:
  the three new consumers of \<open>s\<close> come last in its listeners, \<open>m2\<close> is the only
  consumer of \<open>m1\<close>, and no other stream has any of the four as a consumer.
\<close>

definition map_setup ::
  "nat \<Rightarrow> (val \<Rightarrow> val) \<Rightarrow> (val \<Rightarrow> val) \<Rightarrow> nat \<Rightarrow> nat \<Rightarrow> nat \<Rightarrow> nat \<Rightarrow> nat \<Rightarrow> sworld \<Rightarrow> bool" where
  "map_setup N f g s mi m1 m2 m3 w \<longleftrightarrow>
     ordered N w \<and> s < mi \<and> mi < m1 \<and> m1 < m2 \<and> m2 < m3 \<and> m3 < N
     \<and> (\<exists>es. eventListeners (streams w s) = es @ [mi, m1, m3]
              \<and> set es \<inter> {mi, m1, m2, m3} = {})
     \<and> eventListeners (streams w mi) = []
     \<and> eventListeners (streams w m1) = [m2]
     \<and> eventListeners (streams w m2) = []
     \<and> eventListeners (streams w m3) = []
     \<and> variant (streams w mi) = MapStream (\<lambda>x. x)
     \<and> variant (streams w m1) = MapStream f
     \<and> variant (streams w m2) = MapStream g
     \<and> variant (streams w m3) = MapStream (g \<circ> f)
     \<and> (\<forall>x. x \<notin> {s, mi, m1, m2, m3}
            \<longrightarrow> set (eventListeners (streams w x)) \<inter> {mi, m1, m2, m3} = {})"

text \<open>
  Callbacks that subscribe callbacks to the stream \<open>s\<close> and do nothing else: the
  callback \<open>c\<close>, called with \<open>a\<close>, runs \<^verbatim>\<open>s.subscribe(fn)\<close> for each \<open>fn\<close> of
  \<open>subs c a\<close>, in order.
\<close>

definition subscriber :: "(nat \<Rightarrow> val \<Rightarrow> nat list) \<Rightarrow> nat \<Rightarrow> handler" where
  "subscriber subs s c a w = fold (\<lambda>fn. subscribe fn s) (subs c a) w"

text \<open>The callback \<open>0\<close> subscribes the callback \<open>1\<close>; the others subscribe nothing.\<close>

definition late_subscription :: "nat \<Rightarrow> val \<Rightarrow> nat list" where
  "late_subscription c a = (if c = 0 then [1] else [])"

text \<open>
  The callbacks that the calls \<open>cs\<close> (a callback and its argument each) subscribe, in
  order.
\<close>

definition subscribed_by :: "(nat \<Rightarrow> val \<Rightarrow> nat list) \<Rightarrow> (nat \<times> val) list \<Rightarrow> nat list" where
  "subscribed_by subs cs = concat (map (\<lambda>cv. subs (fst cv) (snd cv)) cs)"

text \<open>
  Two worlds with the same streams, consumers and classes, in the second of which the
  callbacks subscribed by the calls \<open>cs\<close> have been appended to the \<^verbatim>\<open>cbListeners\<close>
  of \<open>s\<close>.
\<close>

definition grown ::
  "(nat \<Rightarrow> val \<Rightarrow> nat list) \<Rightarrow> nat \<Rightarrow> (nat \<times> val) list \<Rightarrow> sworld \<Rightarrow> sworld \<Rightarrow> bool" where
  "grown subs s cs w w' \<longleftrightarrow>
     (\<forall>x. variant (streams w' x) = variant (streams w x)
        \<and> eventListeners (streams w' x) = eventListeners (streams w x)
        \<and> cbListeners (streams w' x)
            = cbListeners (streams w x) @ (if x = s then subscribed_by subs cs else []))"


text \<open>
  Two functions on values, and the world made by
  \<^verbatim>\<open>s = sinkStream(); s.map(x => x); m1 = s.map(wrap); m1.map(twice); s.map(twice . wrap)\<close>.
\<close>

definition wrap :: "val \<Rightarrow> val" where
  "wrap v = VArr [v]"

definition twice :: "val \<Rightarrow> val" where
  "twice v = VArr [v, v]"

text \<open>The world made by \<^verbatim>\<open>s = sinkStream(); s.map(wrap); s.subscribe(cb0)\<close>.\<close>

definition mapped_and_subscribed :: sworld where
  "mapped_and_subscribed = subscribe 0 0 (snd (map_stream wrap 0 (snd (sinkStream empty_sworld))))"

definition four_maps :: sworld where
  "four_maps =
     snd (map_stream (twice \<circ> wrap) 0
       (snd (map_stream twice 2
         (snd (map_stream wrap 0
           (snd (map_stream (\<lambda>x. x) 0 (snd (sinkStream empty_sworld)))))))))"

section \<open>Theorems\<close>

subsection \<open>Listener bookkeeping of \<^verbatim>\<open>Reactive\<close>\<close>

lemma lifecycle_adopt: "st \<noteq> Inactive \<Longrightarrow> lifecycle_hooks (adopt st) (adopt Inactive)"
  by (simp add: lifecycle_hooks_def adopt_def)

lemma perform_invariant:
  assumes "lifecycle_hooks act deact"
      and "perform act deact c r = (Returned u, r')"
      and "0 \<le> nrOfListeners r"
      and "nrOfListeners r = 0 \<longrightarrow> child r = Undefined"
      and "state r = Inactive \<longleftrightarrow> nrOfListeners r = 0"
  shows "0 \<le> nrOfListeners r' \<and> (nrOfListeners r' = 0 \<longrightarrow> child r' = Undefined)
         \<and> (state r' = Inactive \<longleftrightarrow> nrOfListeners r' = 0)"
  using assms
  by (cases c)
     (auto simp: lifecycle_hooks_def addListener_def removeListener_def Let_def
                 activate_def deactivate_def new_MultiObserver_def
           split: observer.splits if_splits)

lemma run_calls_invariant:
  assumes "lifecycle_hooks act deact"
      and "run_calls act deact cs r = (Returned u, r')"
      and "0 \<le> nrOfListeners r"
      and "nrOfListeners r = 0 \<longrightarrow> child r = Undefined"
      and "state r = Inactive \<longleftrightarrow> nrOfListeners r = 0"
  shows "state r' = Inactive \<longleftrightarrow> nrOfListeners r' = 0"
  using assms(2-)
proof (induction cs arbitrary: r)
  case Nil
  then show ?case by simp
next
  case (Cons c cs)
  from Cons.prems(1) obtain v r1 where p: "perform act deact c r = (Returned v, r1)"
    and rest: "run_calls act deact cs r1 = (Returned u, r')"
    by (auto split: prod.splits outcome.splits)
  from perform_invariant [OF assms(1) p Cons.prems(2) Cons.prems(3) Cons.prems(4)]
  show ?case
    using Cons.IH [OF rest] by blast
qed

lemma addListener_hookLog:
  "hookLog (snd (addListener act c r))
     = hookLog r @ (if nrOfListeners r = 0 then [Activate] else [])"
  by (auto simp: addListener_def Let_def activate_def new_MultiObserver_def split: observer.splits)

lemma removeListener_hookLog:
  "hookLog (snd (removeListener deact c r))
     = hookLog r @ (if nrOfListeners r = 1 then [Deactivate] else [])"
  by (auto simp: removeListener_def Let_def deactivate_def split: observer.splits)


lemma indexOf_absent: "x \<notin> set xs \<Longrightarrow> indexOf xs x = None"
  by (induction xs) auto



lemma remove_from_absent: "x \<notin> set xs \<Longrightarrow> remove_from xs x = xs"
  by (simp add: remove_from_def indexOf_absent)

lemma addListener_third:
  assumes "2 \<le> nrOfListeners r" and "child r = MultiObserver m"
  shows "addListener act c r
           = (Returned (state r),
              r\<lparr>nrOfListeners := nrOfListeners r + 1,
                listeners := (listeners r)(m := listeners r m @ [c])\<rparr>)"
  using assms by (simp add: addListener_def Let_def)




lemma push_listeners_end:
  "length (listeners r m) \<le> i
   \<Longrightarrow> push_listeners act deact cb (Suc n) m i a (r, tr) = (Returned (), r, tr)"
  by simp

lemma push_listeners_step:
  assumes "i < length (listeners r m)" and "listeners r m ! i = Obs k"
      and "run_calls act deact (cb k a) r = (Returned (), r')"
  shows "push_listeners act deact cb (Suc (Suc n)) m i a (r, tr)
           = push_listeners act deact cb (Suc n) m (Suc i) a (r', tr @ [(k, a)])"
  using assms by simp

lemma push_listeners_quiet:
  assumes "listeners r m = pre @ map Obs ks @ post" and "\<forall>k\<in>set ks. cb k a = []"
  shows "push_listeners act deact cb (length ks + Suc n) m (length pre) a (r, tr)
           = push_listeners act deact cb (Suc n) m (length pre + length ks) a
               (r, tr @ map (\<lambda>k. (k, a)) ks)"
  using assms
proof (induction ks arbitrary: pre tr)
  case Nil
  then show ?case by simp
next
  case (Cons k ks)
  have l: "listeners r m = (pre @ [Obs k]) @ map Obs ks @ post"
    using Cons.prems(1) by simp
  have q: "\<forall>k\<in>set ks. cb k a = []" and k: "cb k a = []"
    using Cons.prems(2) by simp_all
  have i: "length pre < length (listeners r m)" and e: "listeners r m ! length pre = Obs k"
    using Cons.prems(1) by (simp_all add: nth_append)
  have r: "run_calls act deact (cb k a) r = (Returned (), r)"
    by (simp add: k)
  have "push_listeners act deact cb (Suc (Suc (length ks + n))) m (length pre) a (r, tr)
          = push_listeners act deact cb (Suc (length ks + n)) m (Suc (length pre)) a
              (r, tr @ [(k, a)])"
    by (rule push_listeners_step [where cb = cb and k = k and a = a, OF i e r])
  also have "\<dots> = push_listeners act deact cb (Suc n) m (length (pre @ [Obs k]) + length ks) a
              (r, (tr @ [(k, a)]) @ map (\<lambda>k. (k, a)) ks)"
    using Cons.IH [OF l q, of "tr @ [(k, a)]"] by simp
  finally show ?case by simp
qed



lemma push_added_listener:
  assumes "child r = MultiObserver m" and "2 \<le> nrOfListeners r"
      and "listeners r m = map Obs (xs @ x # ys)"
      and "cb x a = [AddListener (Obs z)]"
      and "\<forall>k\<in>set xs \<union> set ys \<union> {z}. cb k a = []"
      and "length xs + length ys + 5 \<le> fuel"
  shows "push act deact cb fuel (child r) a (r, tr)
           = (Returned (),
              r\<lparr>nrOfListeners := nrOfListeners r + 1,
                listeners := (listeners r)(m := map Obs (xs @ x # ys @ [z]))\<rparr>,
              tr @ map (\<lambda>k. (k, a)) (xs @ x # ys @ [z]))"
proof -
  let ?r = "r\<lparr>nrOfListeners := nrOfListeners r + 1,
              listeners := (listeners r)(m := map Obs (xs @ x # ys @ [z]))\<rparr>"
  from assms(6) have "fuel = Suc (length xs + Suc (Suc (length (ys @ [z]) + Suc (fuel - length xs - length ys - 5))))"
    by simp
  then obtain n where fuel: "fuel = Suc (length xs + Suc (Suc (length (ys @ [z]) + Suc n)))"
    by blast
  have l1: "listeners r m = [] @ map Obs xs @ map Obs (x # ys)"
    using assms(3) by simp
  have q1: "\<forall>k\<in>set xs. cb k a = []" and q2: "\<forall>k\<in>set (ys @ [z]). cb k a = []"
    using assms(5) by simp_all
  have i: "length xs < length (listeners r m)" and e: "listeners r m ! length xs = Obs x"
    using assms(3) by (simp_all add: nth_append)
  have add: "run_calls act deact (cb x a) r = (Returned (), ?r)"
    using assms(1,2,3) by (simp add: assms(4) addListener_third)
  have l2: "listeners ?r m = map Obs (xs @ [x]) @ map Obs (ys @ [z]) @ []"
    by simp
  have "push act deact cb fuel (child r) a (r, tr)
          = push_listeners act deact cb (length xs + Suc (Suc (length (ys @ [z]) + Suc n))) m
              (length ([]::observer list)) a (r, tr)"
    by (simp add: fuel assms(1))
  also have "\<dots> = push_listeners act deact cb (Suc (Suc (length (ys @ [z]) + Suc n))) m
                      (length ([]::observer list) + length xs) a (r, tr @ map (\<lambda>k. (k, a)) xs)"
    by (rule push_listeners_quiet [where cb = cb and a = a, OF l1 q1])
  also have "\<dots> = push_listeners act deact cb (Suc (Suc (length (ys @ [z]) + Suc n))) m (length xs) a
                      (r, tr @ map (\<lambda>k. (k, a)) xs)"
    by simp
  also have "\<dots> = push_listeners act deact cb (Suc (length (ys @ [z]) + Suc n)) m (Suc (length xs)) a
                      (?r, (tr @ map (\<lambda>k. (k, a)) xs) @ [(x, a)])"
    by (rule push_listeners_step [where cb = cb and k = x and a = a, OF i e add])
  also have "\<dots> = push_listeners act deact cb (length (ys @ [z]) + Suc (Suc n)) m
                      (length (map Obs (xs @ [x]))) a
                      (?r, (tr @ map (\<lambda>k. (k, a)) xs) @ [(x, a)])"
    by simp
  also have "\<dots> = push_listeners act deact cb (Suc (Suc n)) m
                      (length (map Obs (xs @ [x])) + length (ys @ [z])) a
                      (?r, ((tr @ map (\<lambda>k. (k, a)) xs) @ [(x, a)]) @ map (\<lambda>k. (k, a)) (ys @ [z]))"
    by (rule push_listeners_quiet [where cb = cb and a = a, OF l2 q2])
  also have "\<dots> = (Returned (), ?r, tr @ map (\<lambda>k. (k, a)) (xs @ x # ys @ [z]))"
    by simp
  finally show ?thesis .
qed


text \<open>
  C5.  Let the hooks of a reactive follow the lifecycle.  After every sequence of
  \<^verbatim>\<open>addListener\<close>/\<^verbatim>\<open>removeListener\<close> calls on a new reactive in which every call
  returns, the reactive is \<open>Inactive\<close> if and only if \<open>nrOfListeners = 0\<close>.  In every
  state, \<^verbatim>\<open>addListener\<close> runs \<^verbatim>\<open>activate\<close> exactly when the counter was \<open>0\<close>
  (rises to \<open>1\<close>), and \<^verbatim>\<open>removeListener\<close> runs \<^verbatim>\<open>deactivate\<close> exactly when the
  counter was \<open>1\<close> (falls to \<open>0\<close>).
\<close>

theorem listener_count_lifecycle:
  assumes "lifecycle_hooks act deact"
      and "run_calls act deact cs new_reactive = (Returned (), r')"
  shows "(state r' = Inactive \<longleftrightarrow> nrOfListeners r' = 0)
       \<and> hookLog (snd (addListener act c r))
            = hookLog r @ (if nrOfListeners r = 0 then [Activate] else [])
       \<and> hookLog (snd (removeListener deact d q))
            = hookLog q @ (if nrOfListeners q = 1 then [Deactivate] else [])"
proof -
  have "state r' = Inactive \<longleftrightarrow> nrOfListeners r' = 0"
    by (rule run_calls_invariant [OF assms]) (simp_all add: new_reactive_def)
  then show ?thesis
    by (simp only: addListener_hookLog removeListener_hookLog simp_thms)
qed


theorem listener_count_lifecycle_witness:
  "lifecycle_hooks (adopt Push) (adopt Inactive)
   \<and> run_calls (adopt Push) (adopt Inactive)
        [AddListener (Obs 1), AddListener (Obs 2), RemoveListener (Obs 1), RemoveListener (Obs 2)]
        new_reactive
       = (Returned (), new_reactive\<lparr>hookLog := [Activate, Deactivate],
                                     listeners := (\<lambda>m. [])(0 := [Obs 1, Obs 2]),
                                     nextMultiObserver := 1\<rparr>)
   \<and> (state (new_reactive\<lparr>hookLog := [Activate, Deactivate],
                            listeners := (\<lambda>m. [])(0 := [Obs 1, Obs 2]),
                            nextMultiObserver := 1\<rparr>) = Inactive
        \<longleftrightarrow> nrOfListeners (new_reactive\<lparr>hookLog := [Activate, Deactivate],
                                listeners := (\<lambda>m. [])(0 := [Obs 1, Obs 2]),
                                nextMultiObserver := 1\<rparr>) = 0)
   \<and> hookLog (snd (addListener (adopt Push) (Obs 1) new_reactive)) = [Activate]
   \<and> hookLog (snd (removeListener (adopt Inactive) (Obs 1)
                     (new_reactive\<lparr>nrOfListeners := 1, child := Obs 1\<rparr>))) = [Deactivate]"
proof -
  have h: "lifecycle_hooks (adopt Push) (adopt Inactive)"
    by (rule lifecycle_adopt) simp
  have run: "run_calls (adopt Push) (adopt Inactive)
        [AddListener (Obs 1), AddListener (Obs 2), RemoveListener (Obs 1), RemoveListener (Obs 2)]
        new_reactive
       = (Returned (), new_reactive\<lparr>hookLog := [Activate, Deactivate],
                                     listeners := (\<lambda>m. [])(0 := [Obs 1, Obs 2]),
                                     nextMultiObserver := 1\<rparr>)"
    by (simp add: addListener_def removeListener_def activate_def deactivate_def adopt_def
                  new_reactive_def new_MultiObserver_def at_index_def)
  from listener_count_lifecycle [OF h run, of "Obs 1" new_reactive "Obs 1"
         "new_reactive\<lparr>nrOfListeners := 1, child := Obs 1\<rparr>"]
  show ?thesis
    using h run by (simp add: new_reactive_def)
qed





subsection \<open>Futures as objects\<close>

lemma and_then_simps [simp]:
  "and_then (Inr w) k = k w" "and_then (Inl e) k = Inl e"
  by (simp_all add: and_then_def)

lemma upd_future_simps [simp]:
  "futures (upd_future f g w) = (futures w)(f := g (futures w f))"
  "notified (upd_future f g w) = notified w"
  "nextFuture (upd_future f g w) = nextFuture w"
  by (simp_all add: upd_future_def)


lemma iterate_pushS_subscribers:
  "iterate (\<lambda>c. pushS self c t v) (map Subscriber cs) w
     = Inr (w\<lparr>notified := notified w @ map (\<lambda>c. (c, v)) cs\<rparr>)"
  by (induction cs arbitrary: w) simp_all

lemma resolve_subscribers:
  assumes "listenerNodes (futures w f) = []"
      and "children (futures w f) = map Subscriber cs"
  shows "invoke (Suc (Suc (Suc n))) (Resolve f v t) w
           = Inr ((upd_future f (\<lambda>x. x\<lparr>listenerNodes := [], fstate := Done, fvalue := v\<rparr>) w)
                   \<lparr>notified := notified w @ map (\<lambda>c. (c, v)) cs\<rparr>)"
  using assms
  by (simp add: resolve_def deactivate_future_def pushSToChildren_def iterate_pushS_subscribers upd_future_def)


lemma add_to_sink:
  assumes "kind (futures w p) = SinkNode" "fstate (futures w p) \<noteq> Done"
  shows "invoke (Suc (Suc n)) (AddListenerOn p node t) w
           = Inr (upd_future p (\<lambda>x. x\<lparr>children := children x @ [node]\<rparr>) w)"
  using assms by (simp add: addListener_future_def activate_future_def Let_def)












lemma fuel_3: "3 \<le> (fuel::nat) \<Longrightarrow> \<exists>n. fuel = Suc (Suc (Suc n))"
  by (rule exI [of _ "fuel - 3"]) simp


text \<open>
  C1, as stated, fails: \<^verbatim>\<open>resolve\<close> has no check of the state.  On a sink future
  with one subscriber, the first \<^verbatim>\<open>resolve\<close> makes the future \<open>Done\<close>; the
  second one stores its value and calls the subscriber again.
\<close>

theorem double_resolve_counterexample:
  "map_sum id (state_of 0)
     (iterate (invoke 3) [AddListenerOn 0 (Subscriber 9) 0, Resolve 0 (VNum 1) 1]
        (snd (sinkFuture empty_fworld))) = Inr Done
   \<and> map_sum id (value_of 0)
     (iterate (invoke 3)
        [AddListenerOn 0 (Subscriber 9) 0, Resolve 0 (VNum 1) 1, Resolve 0 (VNum 2) 2]
        (snd (sinkFuture empty_fworld))) = Inr (VNum 2)
   \<and> map_sum id notified
     (iterate (invoke 3)
        [AddListenerOn 0 (Subscriber 9) 0, Resolve 0 (VNum 1) 1, Resolve 0 (VNum 2) 2]
        (snd (sinkFuture empty_fworld))) = Inr [(9, VNum 1), (9, VNum 2)]"
proof -
  let ?w = "snd (sinkFuture empty_fworld)"
  let ?wa = "upd_future 0 (\<lambda>x. x\<lparr>children := children x @ [Subscriber 9]\<rparr>) ?w"
  let ?w1 = "(upd_future 0 (\<lambda>x. x\<lparr>listenerNodes := [], fstate := Done, fvalue := VNum 1\<rparr>) ?wa)
                   \<lparr>notified := notified ?wa @ map (\<lambda>c. (c, VNum 1)) [9]\<rparr>"
  let ?w2 = "(upd_future 0 (\<lambda>x. x\<lparr>listenerNodes := [], fstate := Done, fvalue := VNum 2\<rparr>) ?w1)
                   \<lparr>notified := notified ?w1 @ map (\<lambda>c. (c, VNum 2)) [9]\<rparr>"
  have a: "invoke 3 (AddListenerOn 0 (Subscriber 9) 0) ?w = Inr ?wa"
    using add_to_sink [of ?w 0 "Suc 0" "Subscriber 9" 0]
    by (simp add: numeral_3_eq_3 sinkFuture_def new_future_def empty_fworld_def
             del: invoke.simps upd_future_simps)
  have "listenerNodes (futures ?wa 0) = []" "children (futures ?wa 0) = map Subscriber [9]"
    by (simp_all add: sinkFuture_def new_future_def empty_fworld_def)
  then have r1: "invoke 3 (Resolve 0 (VNum 1) 1) ?wa = Inr ?w1"
    unfolding numeral_3_eq_3 by (rule resolve_subscribers)
  have "listenerNodes (futures ?w1 0) = []" "children (futures ?w1 0) = map Subscriber [9]"
    by (simp_all add: sinkFuture_def new_future_def empty_fworld_def)
  then have r2: "invoke 3 (Resolve 0 (VNum 2) 2) ?w1 = Inr ?w2"
    unfolding numeral_3_eq_3 by (rule resolve_subscribers)
  have n: "notified ?w = []"
    by (simp add: sinkFuture_def new_future_def empty_fworld_def)
  show ?thesis
    using a r1 r2 n by (simp add: state_of_def value_of_def del: invoke.simps)
qed

text \<open>
  C1, amended.  For a future without subscriptions to parents whose listeners are
  subscribers: the first \<^verbatim>\<open>resolve(v1)\<close> makes it \<open>Done\<close> with value \<open>v1\<close> and
  calls every listener with \<open>v1\<close>; a second \<^verbatim>\<open>resolve(v2)\<close> leaves it \<open>Done\<close>,
  stores \<open>v2\<close> as its value and calls every listener again, with \<open>v2\<close>.  Both calls
  return, with three units of call depth or more.
\<close>

theorem double_resolve_overwrites:
  assumes "listenerNodes (futures w f) = []"
      and "children (futures w f) = map Subscriber cs"
      and "3 \<le> fuel"
  shows "\<exists>w1 w2.
           invoke fuel (Resolve f v1 t1) w = Inr w1
         \<and> invoke fuel (Resolve f v2 t2) w1 = Inr w2
         \<and> state_of f w1 = Done \<and> value_of f w1 = v1
         \<and> notified w1 = notified w @ map (\<lambda>c. (c, v1)) cs
         \<and> state_of f w2 = Done \<and> value_of f w2 = v2
         \<and> notified w2 = notified w1 @ map (\<lambda>c. (c, v2)) cs"
proof -
  obtain n where fuel: "fuel = Suc (Suc (Suc n))"
    using fuel_3 [OF assms(3)] by blast
  let ?w1 = "(upd_future f (\<lambda>x. x\<lparr>listenerNodes := [], fstate := Done, fvalue := v1\<rparr>) w)
                   \<lparr>notified := notified w @ map (\<lambda>c. (c, v1)) cs\<rparr>"
  let ?w2 = "(upd_future f (\<lambda>x. x\<lparr>listenerNodes := [], fstate := Done, fvalue := v2\<rparr>) ?w1)
                   \<lparr>notified := notified ?w1 @ map (\<lambda>c. (c, v2)) cs\<rparr>"
  have r1: "invoke fuel (Resolve f v1 t1) w = Inr ?w1"
    unfolding fuel using assms(1,2) by (rule resolve_subscribers)
  have "listenerNodes (futures ?w1 f) = []" "children (futures ?w1 f) = map Subscriber cs"
    using assms(2) by simp_all
  then have r2: "invoke fuel (Resolve f v2 t2) ?w1 = Inr ?w2"
    unfolding fuel by (rule resolve_subscribers)
  show ?thesis
    using r1 r2
    by (intro exI [of _ ?w1] exI [of _ ?w2]) (simp add: state_of_def value_of_def)
qed

theorem double_resolve_overwrites_witness:
  "listenerNodes (futures (example_sink [9]) 0) = []
   \<and> children (futures (example_sink [9]) 0) = map Subscriber [9]
   \<and> (3::nat) \<le> 3
   \<and> (\<exists>w1 w2.
           invoke 3 (Resolve 0 (VNum 1) 1) (example_sink [9]) = Inr w1
         \<and> invoke 3 (Resolve 0 (VNum 2) 2) w1 = Inr w2
         \<and> state_of 0 w1 = Done \<and> value_of 0 w1 = VNum 1
         \<and> notified w1 = [(9, VNum 1)]
         \<and> state_of 0 w2 = Done \<and> value_of 0 w2 = VNum 2
         \<and> notified w2 = [(9, VNum 1), (9, VNum 2)])"
proof -
  have h: "listenerNodes (futures (example_sink [9]) 0) = []"
          "children (futures (example_sink [9]) 0) = map Subscriber [9]"
          "(3::nat) \<le> 3"
    by (simp_all add: example_sink_def)
  have n: "notified (example_sink [9]) = []"
    by (simp add: example_sink_def)
  from double_resolve_overwrites [OF h, of "VNum 1" 1 "VNum 2" 2] h
  show ?thesis
    by (auto simp del: invoke.simps simp add: n)
qed

text \<open>
  C4.  When a future is \<open>Done\<close> with stored value \<open>v\<close>, \<^verbatim>\<open>addListener\<close> fires the
  new listener with \<open>v\<close> at once and returns \<open>Done\<close>: for a subscriber this is one
  call of its callback and nothing else changes (the node is not linked); for any
  listener it is that listener's \<^verbatim>\<open>pushS\<close> with \<open>v\<close>.
\<close>

theorem addListener_done_fires:
  assumes "fstate (futures w f) = Done"
  shows "addListener_future (invoke (Suc n)) f (Subscriber cb) t w
           = Inr (Done, w\<lparr>notified := notified w @ [(cb, fvalue (futures w f))]\<rparr>)
       \<and> addListener_future self f node t w
           = and_then (self (PushS node t (fvalue (futures w f))) w) (\<lambda>w1. Inr (Done, w1))"
  using assms by (simp add: addListener_future_def)

theorem addListener_done_fires_witness:
  "fstate (futures (snd (of_future (VNum 5) empty_fworld)) 0) = Done
   \<and> map_sum id fst
       (addListener_future (invoke 1) 0 (Subscriber 9) 0 (snd (of_future (VNum 5) empty_fworld)))
       = Inr Done
   \<and> map_sum id (notified \<circ> snd)
       (addListener_future (invoke 1) 0 (Subscriber 9) 0 (snd (of_future (VNum 5) empty_fworld)))
       = Inr [(9, VNum 5)]"
proof -
  have h: "fstate (futures (snd (of_future (VNum 5) empty_fworld)) 0) = Done"
    by (simp add: of_future_def new_future_def empty_fworld_def)
  have v: "fvalue (futures (snd (of_future (VNum 5) empty_fworld)) 0) = VNum 5"
          "notified (snd (of_future (VNum 5) empty_fworld)) = []"
    by (simp_all add: of_future_def new_future_def empty_fworld_def)
  from addListener_done_fires [OF h, of 0 9 0, THEN conjunct1] h v
  show ?thesis
    by (simp del: invoke.simps)
qed




subsection \<open>Streams\<close>

declare for_loop.simps [simp del]

lemma upd_stream_simps [simp]:
  "streams (upd_stream s g w) = (streams w)(s := g (streams w s))"
  "nextStream (upd_stream s g w) = nextStream w"
  "behaviors (upd_stream s g w) = behaviors w"
  "called (upd_stream s g w) = called w"
  "occurrences (upd_stream s g w) = occurrences w"
  by (simp_all add: upd_stream_def)

lemma for_loop_done: "l \<le> i \<Longrightarrow> for_loop body i l w = Inr w"
  by (simp add: for_loop.simps)

lemma for_loop_step:
  "i < l \<Longrightarrow> body i w = Inr w' \<Longrightarrow> for_loop body i l w = for_loop body (Suc i) l w'"
  by (subst for_loop.simps) simp

lemma for_loop_invariant:
  assumes "Inv i w"
      and "\<And>j v. i \<le> j \<Longrightarrow> j < l \<Longrightarrow> Inv j v \<Longrightarrow> \<exists>v'. body j v = Inr v' \<and> Inv (Suc j) v'"
  shows "\<exists>w'. for_loop body i l w = Inr w' \<and> Inv (max i l) w'"
  using assms
proof (induction "l - i" arbitrary: i w)
  case 0
  then show ?case by (simp add: for_loop_done max_def)
next
  case (Suc d)
  then have il: "i < l" by simp
  obtain v' where b: "body i w = Inr v'" and inv: "Inv (Suc i) v'"
    using Suc.prems(2) [of i w] il Suc.prems(1) by auto
  have "d = l - Suc i" using Suc.hyps(2) by simp
  then have "\<exists>w'. for_loop body (Suc i) l v' = Inr w' \<and> Inv (max (Suc i) l) w'"
    using Suc.hyps(1) [of "Suc i" v'] inv Suc.prems(2) by simp
  then show ?case
    using il b by (simp add: for_loop_step max_def)
qed

lemma for_loop_iterate:
  assumes "Inv w"
      and "\<And>j v. j < length es \<Longrightarrow> Inv v
             \<Longrightarrow> \<exists>v'. body j v = Inr v' \<and> g (es ! j) v = Inr v' \<and> Inv v'"
  shows "\<exists>w'. for_loop body i (length es) w = Inr w' \<and> iterate g (drop i es) w = Inr w' \<and> Inv w'"
  using assms(1)
proof (induction "length es - i" arbitrary: i w)
  case 0
  then show ?case by (simp add: for_loop_done)
next
  case (Suc d)
  then have il: "i < length es" by simp
  obtain v' where b: "body i w = Inr v'" "g (es ! i) w = Inr v'" and inv: "Inv v'"
    using assms(2) [OF il Suc.prems] by blast
  have "d = length es - Suc i" using Suc.hyps(2) by simp
  from Suc.hyps(1) [OF this inv]
  obtain w' where w': "for_loop body (Suc i) (length es) v' = Inr w'"
      "iterate g (drop (Suc i) es) v' = Inr w'" "Inv w'"
    by blast
  have "drop i es = es ! i # drop (Suc i) es"
    using il by (simp add: Cons_nth_drop_Suc)
  then have "iterate g (drop i es) w = Inr w'"
    using b(2) w'(2) by simp
  then show ?case
    using il b(1) w'(1,3) by (simp add: for_loop_step)
qed

lemma notify_callbacks_fold:
  assumes "\<And>i. i \<le> length cbs
             \<Longrightarrow> prefix cbs (cbListeners (streams (foldl (call_callback H a) w (take i cbs)) s))"
  shows "for_loop (notify_callback H s a) 0 (length cbs) w
           = Inr (foldl (call_callback H a) w cbs)"
proof -
  let ?Inv = "\<lambda>i v. v = foldl (call_callback H a) w (take i cbs)"
  have step: "\<exists>v'. notify_callback H s a j v = Inr v' \<and> ?Inv (Suc j) v'"
    if j: "j < length cbs" and inv: "?Inv j v" for j v
  proof -
    have "prefix cbs (cbListeners (streams v s))"
      using assms [of j] j inv by simp
    then obtain ys where ys: "cbListeners (streams v s) = cbs @ ys"
      by (auto simp: prefix_def)
    then have at_j: "cbListeners (streams v s) ! j = cbs ! j"
                    "j < length (cbListeners (streams v s))"
      using j by (simp_all add: nth_append)
    have "foldl (call_callback H a) w (take (Suc j) cbs) = call_callback H a v (cbs ! j)"
      using j inv by (simp add: take_Suc_conv_app_nth)
    then show ?thesis
      using at_j by (simp add: notify_callback_def Let_def)
  qed
  have "\<exists>w'. for_loop (notify_callback H s a) 0 (length cbs) w = Inr w'
          \<and> ?Inv (max 0 (length cbs)) w'"
    by (rule for_loop_invariant [where Inv = ?Inv]) (use step in auto)
  then show ?thesis by simp
qed

lemma calls_inert:
  assumes "inert H"
  shows "streams (foldl (call_callback H a) w cs) = streams w
       \<and> occurrences (foldl (call_callback H a) w cs) = occurrences w
       \<and> called (foldl (call_callback H a) w cs) = called w @ map (\<lambda>c. (c, a)) cs"
proof (induction cs rule: rev_induct)
  case Nil
  then show ?case by simp
next
  case (snoc c cs)
  then show ?case
    using assms by (simp add: call_callback_def inert_def)
qed

lemma notify_callbacks_inert:
  assumes "inert H"
  shows "\<exists>w'. for_loop (notify_callback H s a) 0 (length (cbListeners (streams w s))) w = Inr w'
            \<and> streams w' = streams w \<and> occurrences w' = occurrences w
            \<and> called w' = called w @ map (\<lambda>c. (c, a)) (cbListeners (streams w s))
            \<and> w' = foldl (call_callback H a) w (cbListeners (streams w s))"
proof -
  have "for_loop (notify_callback H s a) 0 (length (cbListeners (streams w s))) w
          = Inr (foldl (call_callback H a) w (cbListeners (streams w s)))"
    by (rule notify_callbacks_fold) (simp add: calls_inert [OF assms])
  then show ?thesis
    using calls_inert [OF assms, of a w "cbListeners (streams w s)"] by simp
qed

lemma same_shape_trans: "same_shape u v \<Longrightarrow> same_shape v w \<Longrightarrow> same_shape u w"
  by (simp add: same_shape_def)

lemma ordered_same_shape: "same_shape w v \<Longrightarrow> ordered N w \<Longrightarrow> ordered N v"
  by (simp add: same_shape_def ordered_def)

lemma push_stream_cases:
  "push_stream self e a v = Inr v \<or> (\<exists>a'. push_stream self e a v = self e a' v)"
  by (auto simp: push_stream_def split: skind.splits)

lemma publish_closed:
  assumes "inert H"
  shows "ordered N w \<Longrightarrow> (\<forall>x\<in>T. set (eventListeners (streams w x)) \<subseteq> T) \<Longrightarrow> s \<in> T
     \<Longrightarrow> N - s < n
     \<Longrightarrow> \<exists>w' ocs. stream_publish n H s a w = Inr w' \<and> same_shape w w'
           \<and> (\<forall>x. x \<notin> T \<longrightarrow> streams w' x = streams w x)
           \<and> last' (streams w' s) = a
           \<and> occurrences w' = occurrences w @ (s, a) # ocs
           \<and> fst ` set ocs \<subseteq> {x \<in> T. s < x}
           \<and> prefix (called w) (called w')"
proof (induction n arbitrary: s a w T)
  case 0
  then show ?case by simp
next
  case (Suc k)
  let ?w1 = "(upd_stream s (\<lambda>x. x\<lparr>last' := a\<rparr>) w)\<lparr>occurrences := occurrences w @ [(s, a)]\<rparr>"
  let ?es = "eventListeners (streams w s)"
  let ?T' = "{x \<in> T. s < x}"
  obtain w2 where cb: "for_loop (notify_callback H s a) 0 (length (cbListeners (streams ?w1 s))) ?w1
                         = Inr w2"
    and w2: "streams w2 = streams ?w1" "occurrences w2 = occurrences ?w1"
            "called w2 = called ?w1 @ map (\<lambda>c. (c, a)) (cbListeners (streams ?w1 s))"
    using notify_callbacks_inert [OF assms, of s a ?w1] by blast
  have shape1: "same_shape w w2"
    using w2(1) by (simp add: same_shape_def)
  let ?Inv = "\<lambda>(i::nat) v. same_shape w v \<and> (\<forall>x. x \<notin> ?T' \<longrightarrow> streams v x = streams w2 x)
                  \<and> (\<exists>ocs. occurrences v = occurrences w2 @ ocs \<and> fst ` set ocs \<subseteq> ?T')
                  \<and> prefix (called w2) (called v)"
  have step: "\<exists>v'. notify_consumer (stream_publish k H) s a j v = Inr v' \<and> ?Inv (Suc j) v'"
    if j: "j < length ?es" and inv: "?Inv j v" for j v
  proof -
    let ?e = "?es ! j"
    have sv: "same_shape w v"
      using inv by blast
    have es: "eventListeners (streams v s) = ?es"
      using sv by (simp add: same_shape_def)
    have "?e \<in> set ?es"
      using j by simp
    then have e: "?e \<in> T" "s < ?e" "?e < N"
      using Suc.prems(1,2,3) by (auto simp: ordered_def)
    have nc: "notify_consumer (stream_publish k H) s a j v
                = push_stream (stream_publish k H) ?e a v"
      using j es by (simp add: notify_consumer_def)
    consider "push_stream (stream_publish k H) ?e a v = Inr v"
      | a' where "push_stream (stream_publish k H) ?e a v = stream_publish k H ?e a' v"
      using push_stream_cases by blast
    then show ?thesis
    proof cases
      case 1
      then show ?thesis using nc inv by simp
    next
      case 2
      have o: "ordered N v"
        using sv Suc.prems(1) ordered_same_shape by blast
      have c: "\<forall>x\<in>?T'. set (eventListeners (streams v x)) \<subseteq> ?T'"
        using sv Suc.prems(1,2) by (fastforce simp: same_shape_def ordered_def)
      have "N - ?e < k"
        using e Suc.prems(4) by linarith
      from Suc.IH [OF o c _ this, of a'] e
      obtain v' ocs' where v': "stream_publish k H ?e a' v = Inr v'" "same_shape v v'"
          "\<forall>x. x \<notin> ?T' \<longrightarrow> streams v' x = streams v x"
          "occurrences v' = occurrences v @ (?e, a') # ocs'"
          "fst ` set ocs' \<subseteq> {x \<in> ?T'. ?e < x}"
          "prefix (called v) (called v')"
        by auto
      obtain ocs where ocs: "occurrences v = occurrences w2 @ ocs" "fst ` set ocs \<subseteq> ?T'"
        using inv by blast
      have "occurrences v' = occurrences w2 @ (ocs @ (?e, a') # ocs')"
           "fst ` set (ocs @ (?e, a') # ocs') \<subseteq> ?T'"
        using v'(4,5) ocs e by auto
      then have "\<exists>ocs. occurrences v' = occurrences w2 @ ocs \<and> fst ` set ocs \<subseteq> ?T'"
        by blast
      moreover have "same_shape w v'"
        using sv v'(2) same_shape_trans by blast
      moreover have "\<forall>x. x \<notin> ?T' \<longrightarrow> streams v' x = streams w2 x"
        using inv v'(3) by simp
      moreover have "prefix (called w2) (called v')"
        using inv v'(6) by (meson prefix_order.order_trans)
      ultimately show ?thesis
        using nc 2 v'(1) by simp
    qed
  qed
  have "?Inv 0 w2"
    using shape1 by simp
  then have "\<exists>w'. for_loop (notify_consumer (stream_publish k H) s a) 0 (length ?es) w2 = Inr w'
          \<and> ?Inv (max 0 (length ?es)) w'"
    by (rule for_loop_invariant [where Inv = ?Inv]) (use step in blast)
  then obtain w' ocs where w': "for_loop (notify_consumer (stream_publish k H) s a) 0 (length ?es) w2 = Inr w'"
      "same_shape w w'" "\<forall>x. x \<notin> ?T' \<longrightarrow> streams w' x = streams w2 x"
      "occurrences w' = occurrences w2 @ ocs" "fst ` set ocs \<subseteq> ?T'"
      "prefix (called w2) (called w')"
    by auto
  have len: "length (eventListeners (streams w2 s)) = length ?es"
    using w2(1) by simp
  have run: "stream_publish (Suc k) H s a w = Inr w'"
    using cb w'(1) len by (simp add: publish_def Let_def)
  have "s \<notin> ?T'" by simp
  then have "streams w' s = streams ?w1 s"
    using w'(3) w2(1) by metis
  then have l: "last' (streams w' s) = a"
    by simp
  have out: "\<forall>x. x \<notin> T \<longrightarrow> streams w' x = streams w x"
  proof (intro allI impI)
    fix x assume "x \<notin> T"
    then have "x \<notin> ?T'" "x \<noteq> s" using Suc.prems(3) by auto
    then show "streams w' x = streams w x"
      using w'(3) w2(1) by simp
  qed
  have "occurrences w' = occurrences w @ (s, a) # ocs"
    using w'(4) w2(2) by simp
  moreover have "prefix (called w) (called w')"
    using w'(6) w2(3) by (auto simp: prefix_def)
  ultimately show ?case
    using run w'(2) l out w'(5) by blast
qed

lemma inert_spy: "inert spy"
  by (simp add: inert_def spy_def)

text \<open>
  C2.  The code at the input of the test "snapshot" of \<^verbatim>\<open>test/placeholder.ts\<close>: a
  behavior with value 7, \<^verbatim>\<open>snap = snapshot(b, s)\<close>, a subscriber of \<open>snap\<close>, and the
  occurrence 1 of \<open>s\<close>.  The subscriber is called with the pair \<^verbatim>\<open>[1, 7]\<close>, not with
  the sampled value 7.
\<close>

theorem snapshot_publishes_pair:
  "map_sum id called
     (stream_publish 2 spy 0 (VNum 1)
        (subscribe 9 1 (snd (snapshot 0 0 (snd (sinkStream (set_behavior 0 (VNum 7) empty_sworld)))))))
     = Inr [(9, VArr [VNum 1, VNum 7])]"
  by code_simp

text \<open>
  C9, as stated, fails: \<^verbatim>\<open>publish(a)\<close> begins with \<^verbatim>\<open>this.last = a\<close>, so after
  \<^verbatim>\<open>publish(5)\<close> on a new sink stream its \<^verbatim>\<open>last\<close> is 5.
\<close>

theorem stream_keeps_last_counterexample:
  "map_sum id (last_of 0) (stream_publish 1 spy 0 (VNum 5) (snd (sinkStream empty_sworld)))
     = Inr (VNum 5)"
  by code_simp

text \<open>
  C9, amended.  A stream stores its most recent occurrence in \<^verbatim>\<open>last\<close>.  When the
  callbacks leave the streams alone and publish nothing, and every consumer was created
  after the stream it listens to,
  \<^verbatim>\<open>publish(a)\<close> on a stream \<open>s\<close> returns (with a call-depth bound above \<open>N - s\<close>)
  and \<^verbatim>\<open>s.last\<close> is \<open>a\<close> afterwards.  The publish is the assignment of \<open>a\<close> to
  \<^verbatim>\<open>s.last\<close>, then the calls of the callbacks subscribed to \<open>s\<close>, each with \<open>a\<close> and
  in order, then the pushes of \<open>a\<close> to the consumers of \<open>s\<close>, in order; the calls of
  the callbacks of \<open>s\<close> with \<open>a\<close> are the first entries that it adds to the log of
  calls.
\<close>

theorem publish_stores_last:
  assumes "inert H" and "ordered N w" and "N - s < n"
  shows "\<exists>w' rest.
           stream_publish n H s a w = Inr w' \<and> last_of s w' = a
         \<and> iterate (\<lambda>e. push_stream (stream_publish (n - 1) H) e a) (eventListeners (streams w s))
             (foldl (call_callback H a)
                ((upd_stream s (\<lambda>x. x\<lparr>last' := a\<rparr>) w)\<lparr>occurrences := occurrences w @ [(s, a)]\<rparr>)
                (cbListeners (streams w s)))
             = Inr w'
         \<and> called w' = called w @ map (\<lambda>c. (c, a)) (cbListeners (streams w s)) @ rest"
proof -
  from assms(3) obtain k where n: "n = Suc k"
    by (cases n) simp_all
  let ?w1 = "(upd_stream s (\<lambda>x. x\<lparr>last' := a\<rparr>) w)\<lparr>occurrences := occurrences w @ [(s, a)]\<rparr>"
  let ?cbs = "cbListeners (streams w s)"
  let ?es = "eventListeners (streams w s)"
  let ?w2 = "foldl (call_callback H a) ?w1 ?cbs"
  have cbs1: "cbListeners (streams ?w1 s) = ?cbs"
    by simp
  obtain w2 where cb: "for_loop (notify_callback H s a) 0 (length (cbListeners (streams ?w1 s))) ?w1
                         = Inr w2"
    and w2: "streams w2 = streams ?w1"
            "called w2 = called ?w1 @ map (\<lambda>c. (c, a)) (cbListeners (streams ?w1 s))"
            "w2 = foldl (call_callback H a) ?w1 (cbListeners (streams ?w1 s))"
    using notify_callbacks_inert [OF assms(1), of s a ?w1] by blast
  have w2_eq: "w2 = ?w2"
    using w2(3) cbs1 by simp
  have shape2: "same_shape w w2"
    using w2(1) by (simp add: same_shape_def)
  let ?Inv = "\<lambda>v. same_shape w v \<and> prefix (called w2) (called v)"
  have step: "\<exists>v'. notify_consumer (stream_publish k H) s a j v = Inr v'
                 \<and> push_stream (stream_publish k H) (?es ! j) a v = Inr v' \<and> ?Inv v'"
    if j: "j < length ?es" and inv: "?Inv v" for j v
  proof -
    let ?e = "?es ! j"
    have sv: "same_shape w v"
      using inv by blast
    have es: "eventListeners (streams v s) = ?es"
      using sv by (simp add: same_shape_def)
    have "?e \<in> set ?es"
      using j by simp
    then have e: "s < ?e" "?e < N"
      using assms(2) by (auto simp: ordered_def)
    have nc: "notify_consumer (stream_publish k H) s a j v
                = push_stream (stream_publish k H) ?e a v"
      using j es by (simp add: notify_consumer_def)
    consider "push_stream (stream_publish k H) ?e a v = Inr v"
      | a' where "push_stream (stream_publish k H) ?e a v = stream_publish k H ?e a' v"
      using push_stream_cases by blast
    then show ?thesis
    proof cases
      case 1
      then show ?thesis using nc inv by simp
    next
      case 2
      have o: "ordered N v"
        using sv assms(2) ordered_same_shape by blast
      have "N - ?e < k"
        using e assms(3) n by linarith
      from publish_closed [OF assms(1) o _ _ this, of UNIV a']
      obtain v' where v': "stream_publish k H ?e a' v = Inr v'" "same_shape v v'"
          "prefix (called v) (called v')"
        by auto
      have "same_shape w v'"
        using sv v'(2) same_shape_trans by blast
      moreover have "prefix (called w2) (called v')"
        using inv v'(3) by (meson prefix_order.order_trans)
      ultimately show ?thesis
        using nc 2 v'(1) by simp
    qed
  qed
  have "?Inv w2"
    using shape2 by simp
  then have "\<exists>w'. for_loop (notify_consumer (stream_publish k H) s a) 0 (length ?es) w2 = Inr w'
          \<and> iterate (\<lambda>e. push_stream (stream_publish k H) e a) (drop 0 ?es) w2 = Inr w'
          \<and> ?Inv w'"
    by (rule for_loop_iterate [where Inv = ?Inv]) (use step in blast)
  then obtain w' where w': "for_loop (notify_consumer (stream_publish k H) s a) 0 (length ?es) w2 = Inr w'"
      "iterate (\<lambda>e. push_stream (stream_publish k H) e a) ?es w2 = Inr w'"
      "prefix (called w2) (called w')"
    by auto
  have len: "length (eventListeners (streams w2 s)) = length ?es"
    using w2(1) by simp
  have run: "stream_publish n H s a w = Inr w'"
    unfolding n using cb w'(1) len by (simp add: publish_def Let_def)
  from publish_closed [OF assms(1) assms(2) _ _ assms(3), of UNIV a]
  have "\<exists>v. stream_publish n H s a w = Inr v \<and> last' (streams v s) = a"
    by auto
  then have l: "last_of s w' = a"
    using run by (simp add: last_of_def)
  obtain rest where "called w' = called w2 @ rest"
    using w'(3) by (auto simp: prefix_def)
  then have c: "called w' = called w @ map (\<lambda>c. (c, a)) ?cbs @ rest"
    using w2(2) by simp
  have it: "iterate (\<lambda>e. push_stream (stream_publish (n - 1) H) e a) ?es ?w2 = Inr w'"
    using w'(2) w2_eq n by simp
  from run l it c show ?thesis
    by blast
qed

theorem publish_stores_last_witness:
  "inert spy \<and> ordered 2 mapped_and_subscribed \<and> 2 - 0 < (3::nat)
   \<and> (\<exists>w' rest. stream_publish 3 spy 0 (VNum 5) mapped_and_subscribed = Inr w'
         \<and> last_of 0 w' = VNum 5 \<and> called w' = (0, VNum 5) # rest)"
proof -
  have h: "inert spy" "ordered 2 mapped_and_subscribed" "2 - 0 < (3::nat)"
    by (simp_all add: inert_spy ordered_def mapped_and_subscribed_def subscribe_def map_stream_def
          listen_def new_stream_def sinkStream_def empty_sworld_def)
  have c: "called mapped_and_subscribed = []" "cbListeners (streams mapped_and_subscribed 0) = [0]"
    by (simp_all add: mapped_and_subscribed_def subscribe_def map_stream_def
          listen_def new_stream_def sinkStream_def empty_sworld_def)
  from publish_stores_last [OF h, of "VNum 5"]
  obtain w' rest where "stream_publish 3 spy 0 (VNum 5) mapped_and_subscribed = Inr w'"
      "last_of 0 w' = VNum 5"
      "called w' = called mapped_and_subscribed
                     @ map (\<lambda>c. (c, VNum 5)) (cbListeners (streams mapped_and_subscribed 0)) @ rest"
    by blast
  then have "\<exists>w' rest. stream_publish 3 spy 0 (VNum 5) mapped_and_subscribed = Inr w'
         \<and> last_of 0 w' = VNum 5 \<and> called w' = (0, VNum 5) # rest"
    using c by simp
  with h show ?thesis
    by (intro conjI)
qed

lemma fold_subscribe:
  "streams (fold (\<lambda>fn. subscribe fn s) fns w)
     = (streams w)(s := (streams w s)\<lparr>cbListeners := cbListeners (streams w s) @ fns\<rparr>)
   \<and> called (fold (\<lambda>fn. subscribe fn s) fns w) = called w
   \<and> occurrences (fold (\<lambda>fn. subscribe fn s) fns w) = occurrences w"
  by (induction fns arbitrary: w) (simp_all add: subscribe_def)

lemma call_subscriber:
  "streams (call_callback (subscriber subs s) a w c)
     = (streams w)(s := (streams w s)\<lparr>cbListeners := cbListeners (streams w s) @ subs c a\<rparr>)"
  "called (call_callback (subscriber subs s) a w c) = called w @ [(c, a)]"
  "occurrences (call_callback (subscriber subs s) a w c) = occurrences w"
  by (simp_all add: call_callback_def subscriber_def fold_subscribe)

lemma calls_subscriber:
  "streams (foldl (call_callback (subscriber subs s) a) w cs)
     = (streams w)(s := (streams w s)\<lparr>cbListeners :=
          cbListeners (streams w s) @ subscribed_by subs (map (\<lambda>c. (c, a)) cs)\<rparr>)
   \<and> called (foldl (call_callback (subscriber subs s) a) w cs) = called w @ map (\<lambda>c. (c, a)) cs
   \<and> occurrences (foldl (call_callback (subscriber subs s) a) w cs) = occurrences w"
proof (induction cs rule: rev_induct)
  case Nil
  then show ?case by (simp add: subscribed_by_def)
next
  case (snoc c cs)
  then show ?case
    by (auto simp: call_subscriber subscribed_by_def fun_eq_iff)
qed

lemma notify_callbacks_subscriber:
  "\<exists>w'. for_loop (notify_callback (subscriber subs s) e a) 0 (length (cbListeners (streams w e))) w
           = Inr w'
       \<and> streams w' = (streams w)(s := (streams w s)\<lparr>cbListeners :=
            cbListeners (streams w s)
              @ subscribed_by subs (map (\<lambda>c. (c, a)) (cbListeners (streams w e)))\<rparr>)
       \<and> called w' = called w @ map (\<lambda>c. (c, a)) (cbListeners (streams w e))
       \<and> occurrences w' = occurrences w"
proof -
  have "for_loop (notify_callback (subscriber subs s) e a) 0 (length (cbListeners (streams w e))) w
          = Inr (foldl (call_callback (subscriber subs s) a) w (cbListeners (streams w e)))"
    by (rule notify_callbacks_fold) (simp add: calls_subscriber)
  then show ?thesis
    using calls_subscriber [of subs s a w "cbListeners (streams w e)"] by simp
qed

lemma grown_trans:
  "grown subs s cs u v \<Longrightarrow> grown subs s cs' v w \<Longrightarrow> grown subs s (cs @ cs') u w"
  by (simp add: grown_def subscribed_by_def)

lemma ordered_grown: "grown subs s cs w v \<Longrightarrow> ordered N w \<Longrightarrow> ordered N v"
  by (simp add: grown_def ordered_def)

lemma publish_subscribing:
  "ordered N w \<Longrightarrow> (\<forall>x\<in>T. set (eventListeners (streams w x)) \<subseteq> T) \<Longrightarrow> e \<in> T
     \<Longrightarrow> s \<notin> {x \<in> T. e < x} \<Longrightarrow> N - e < n
     \<Longrightarrow> \<exists>w' rest. stream_publish n (subscriber subs s) e a w = Inr w'
           \<and> grown subs s (map (\<lambda>c. (c, a)) (cbListeners (streams w e)) @ rest) w w'
           \<and> called w' = called w @ map (\<lambda>c. (c, a)) (cbListeners (streams w e)) @ rest
           \<and> (\<forall>cv\<in>set rest. \<exists>x\<in>T. e < x \<and> fst cv \<in> set (cbListeners (streams w x)))"
proof (induction n arbitrary: e a w T)
  case 0
  then show ?case by simp
next
  case (Suc k)
  let ?H = "subscriber subs s"
  let ?w1 = "(upd_stream e (\<lambda>x. x\<lparr>last' := a\<rparr>) w)\<lparr>occurrences := occurrences w @ [(e, a)]\<rparr>"
  let ?es = "eventListeners (streams w e)"
  let ?cs = "map (\<lambda>c. (c, a)) (cbListeners (streams w e))"
  let ?T' = "{x \<in> T. e < x}"
  have cbs1: "cbListeners (streams ?w1 e) = cbListeners (streams w e)"
    by simp
  obtain w2 where cb: "for_loop (notify_callback ?H e a) 0 (length (cbListeners (streams ?w1 e))) ?w1
                         = Inr w2"
    and w2: "streams w2 = (streams ?w1)(s := (streams ?w1 s)\<lparr>cbListeners :=
                cbListeners (streams ?w1 s)
                  @ subscribed_by subs (map (\<lambda>c. (c, a)) (cbListeners (streams ?w1 e)))\<rparr>)"
            "called w2 = called ?w1 @ map (\<lambda>c. (c, a)) (cbListeners (streams ?w1 e))"
    using notify_callbacks_subscriber [of subs s e a ?w1] by blast
  have grown2: "grown subs s ?cs w w2"
    unfolding grown_def w2(1) cbs1 by simp
  have called2: "called w2 = called w @ ?cs"
    using w2(2) by simp
  let ?Inv = "\<lambda>(i::nat) v. \<exists>rest. grown subs s (?cs @ rest) w v \<and> called v = called w2 @ rest
                  \<and> (\<forall>cv\<in>set rest. \<exists>x\<in>?T'. fst cv \<in> set (cbListeners (streams w x)))"
  have step: "\<exists>v'. notify_consumer (stream_publish k ?H) e a j v = Inr v' \<and> ?Inv (Suc j) v'"
    if j: "j < length ?es" and inv: "?Inv j v" for j v
  proof -
    let ?c = "?es ! j"
    obtain rest where rest: "grown subs s (?cs @ rest) w v" "called v = called w2 @ rest"
        "\<forall>cv\<in>set rest. \<exists>x\<in>?T'. fst cv \<in> set (cbListeners (streams w x))"
      using inv by blast
    have es: "eventListeners (streams v e) = ?es"
      using rest(1) by (simp add: grown_def)
    have "?c \<in> set ?es"
      using j by simp
    then have c: "?c \<in> T" "e < ?c" "?c < N"
      using Suc.prems(1,2,3) by (auto simp: ordered_def)
    then have cT: "?c \<in> ?T'"
      by simp
    have same_cbs: "cbListeners (streams v x) = cbListeners (streams w x)" if "x \<in> ?T'" for x
    proof -
      have "x \<noteq> s" using that Suc.prems(4) by auto
      then show ?thesis using rest(1) by (simp add: grown_def)
    qed
    have nc: "notify_consumer (stream_publish k ?H) e a j v
                = push_stream (stream_publish k ?H) ?c a v"
      using j es by (simp add: notify_consumer_def)
    consider "push_stream (stream_publish k ?H) ?c a v = Inr v"
      | a' where "push_stream (stream_publish k ?H) ?c a v = stream_publish k ?H ?c a' v"
      using push_stream_cases by blast
    then show ?thesis
    proof cases
      case 1
      then show ?thesis using nc inv by simp
    next
      case 2
      have o: "ordered N v"
        using rest(1) Suc.prems(1) ordered_grown by blast
      have cl: "\<forall>x\<in>?T'. set (eventListeners (streams v x)) \<subseteq> ?T'"
        using rest(1) Suc.prems(1,2) by (fastforce simp: grown_def ordered_def)
      have out: "s \<notin> {x \<in> ?T'. ?c < x}"
        using Suc.prems(4) by blast
      have "N - ?c < k"
        using c Suc.prems(5) by linarith
      from Suc.IH [OF o cl cT out this, of a']
      obtain v' rest' where v': "stream_publish k ?H ?c a' v = Inr v'"
          "grown subs s (map (\<lambda>c. (c, a')) (cbListeners (streams v ?c)) @ rest') v v'"
          "called v' = called v @ map (\<lambda>c. (c, a')) (cbListeners (streams v ?c)) @ rest'"
          "\<forall>cv\<in>set rest'. \<exists>x\<in>?T'. ?c < x \<and> fst cv \<in> set (cbListeners (streams v x))"
        by blast
      let ?new = "map (\<lambda>c. (c, a')) (cbListeners (streams v ?c)) @ rest'"
      have g: "grown subs s (?cs @ rest @ ?new) w v'"
        using grown_trans [OF rest(1) v'(2)] by simp
      have cl': "called v' = called w2 @ rest @ ?new"
        using v'(3) rest(2) by simp
      have m1: "\<exists>x\<in>?T'. fst cv \<in> set (cbListeners (streams w x))"
        if "cv \<in> set (map (\<lambda>c. (c, a')) (cbListeners (streams v ?c)))" for cv
      proof -
        have "fst cv \<in> set (cbListeners (streams v ?c))"
          using that by auto
        then have "fst cv \<in> set (cbListeners (streams w ?c))"
          using same_cbs [OF cT] by simp
        then show ?thesis using cT by blast
      qed
      have m2: "\<exists>x\<in>?T'. fst cv \<in> set (cbListeners (streams w x))" if "cv \<in> set rest'" for cv
      proof -
        have "\<exists>x\<in>?T'. ?c < x \<and> fst cv \<in> set (cbListeners (streams v x))"
          using v'(4) that by (rule bspec)
        then obtain x where x: "x \<in> ?T'" "fst cv \<in> set (cbListeners (streams v x))"
          by (elim bexE conjE)
        then have "fst cv \<in> set (cbListeners (streams w x))"
          using same_cbs [OF x(1)] by simp
        then show ?thesis using x(1) by (rule_tac x = x in bexI)
      qed
      have m0: "\<exists>x\<in>?T'. fst cv \<in> set (cbListeners (streams w x))" if "cv \<in> set rest" for cv
        using rest(3) that by (rule bspec)
      have all: "\<forall>cv\<in>set (rest @ ?new). \<exists>x\<in>?T'. fst cv \<in> set (cbListeners (streams w x))"
      proof
        fix cv assume "cv \<in> set (rest @ ?new)"
        then consider "cv \<in> set rest"
          | "cv \<in> set (map (\<lambda>c. (c, a')) (cbListeners (streams v ?c)))" | "cv \<in> set rest'"
          by auto
        then show "\<exists>x\<in>?T'. fst cv \<in> set (cbListeners (streams w x))"
          by cases (rule m0 m1 m2, assumption)+
      qed
      have "?Inv (Suc j) v'"
        using g cl' all by (intro exI [of _ "rest @ ?new"] conjI)
      then show ?thesis
        using nc 2 v'(1) by simp
    qed
  qed
  have "?Inv 0 w2"
    using grown2 by simp
  then have "\<exists>w'. for_loop (notify_consumer (stream_publish k ?H) e a) 0 (length ?es) w2 = Inr w'
          \<and> ?Inv (max 0 (length ?es)) w'"
    by (rule for_loop_invariant [where Inv = ?Inv]) (use step in blast)
  then obtain w' rest where w': "for_loop (notify_consumer (stream_publish k ?H) e a) 0 (length ?es) w2 = Inr w'"
      "grown subs s (?cs @ rest) w w'" "called w' = called w2 @ rest"
      "\<forall>cv\<in>set rest. \<exists>x\<in>?T'. fst cv \<in> set (cbListeners (streams w x))"
    by auto
  have len: "length (eventListeners (streams w2 e)) = length ?es"
    using grown2 by (simp add: grown_def)
  have run: "stream_publish (Suc k) ?H e a w = Inr w'"
    using cb w'(1) len by (simp add: publish_def Let_def)
  have "called w' = called w @ ?cs @ rest"
    using w'(3) called2 by simp
  moreover have "\<forall>cv\<in>set rest. \<exists>x\<in>T. e < x \<and> fst cv \<in> set (cbListeners (streams w x))"
    using w'(4) by blast
  ultimately show ?case
    using run w'(2) by blast
qed

text \<open>
  C3, as stated, fails, in \<^verbatim>\<open>Stream.publish\<close> and in \<^verbatim>\<open>MultiObserver.push\<close>.
  The second loop of \<^verbatim>\<open>publish\<close> reads the length of \<^verbatim>\<open>eventListeners\<close> after
  the callbacks have run: a callback of a sink stream that runs
  \<^verbatim>\<open>s.map(x => x).subscribe(cb1)\<close> adds a consumer during the tick; the stream had
  no consumer before, and \<open>cb1\<close> is called with the value 5 of that tick.
  \<^verbatim>\<open>MultiObserver.push\<close> reads \<^verbatim>\<open>this.listeners.length\<close> at every step: when the
  listeners 1 and 2 are attached and the callback of 1 adds the listener 3, the same push
  visits 3 as well.
\<close>

theorem late_listener_counterexample:
  "eventListeners (streams (subscribe 0 0 (snd (sinkStream empty_sworld))) 0) = []
   \<and> map_sum id called
       (stream_publish 2 mapping_callback 0 (VNum 5) (subscribe 0 0 (snd (sinkStream empty_sworld))))
       = Inr [(0, VNum 5), (1, VNum 5)]
   \<and> listeners two_listeners 0 = [Obs 1, Obs 2]
   \<and> snd (snd (push (adopt Push) (adopt Inactive) (subscribing_listener 1 3) 5
                  (child two_listeners) (7::nat) (two_listeners, [])))
       = [(1, 7), (2, 7), (3, 7)]"
  by code_simp

text \<open>
  C3, amended.  Let every consumer have been created after the stream it listens to, and
  let the callbacks do nothing but subscribe callbacks to the stream \<open>s\<close>.  Then
  \<^verbatim>\<open>publish(a)\<close> on \<open>s\<close> returns (with a call-depth bound above \<open>N - s\<close>), and the
  calls made until it returns are: the callbacks that were subscribed to \<open>s\<close> when it
  started, each once, with \<open>a\<close> and in order; and then only calls of callbacks that
  were subscribed, when the publish started, to streams created after \<open>s\<close>.  So a
  callback subscribed to \<open>s\<close> during the publish, and to no later stream before it, is
  not called in it.
  Every callback subscribed during the publish is in the \<^verbatim>\<open>cbListeners\<close> of \<open>s\<close>
  afterwards, behind the old ones and in the order of subscription, and the next publish
  on \<open>s\<close> calls it.

  In \<^verbatim>\<open>MultiObserver.push\<close> the bound is read at every step: when two or more
  listeners are attached and the callback of one of them adds a listener \<open>z\<close> during a
  push (the others adding or removing none), \<open>z\<close> is appended to the array being walked
  and the same push visits it, after the others; the push returns (with a bound on the
  steps of five more than the number of the other listeners).
\<close>

theorem late_subscriber_not_called:
  assumes "ordered N w" and "N - s < n"
      and "child r = MultiObserver m" and "2 \<le> nrOfListeners r"
      and "listeners r m = map Obs (xs @ x # ys)"
      and "cb x b = [AddListener (Obs z)]"
      and "\<forall>k\<in>set xs \<union> set ys \<union> {z}. cb k b = []"
      and "length xs + length ys + 5 \<le> fuel"
  shows "(\<exists>w' rest w'' rest'.
            stream_publish n (subscriber subs s) s a w = Inr w'
          \<and> called w' = called w @ map (\<lambda>c. (c, a)) (cbListeners (streams w s)) @ rest
          \<and> (\<forall>cv\<in>set rest. \<exists>x. s < x \<and> fst cv \<in> set (cbListeners (streams w x)))
          \<and> cbListeners (streams w' s)
               = cbListeners (streams w s)
                 @ subscribed_by subs (map (\<lambda>c. (c, a)) (cbListeners (streams w s)) @ rest)
          \<and> stream_publish n (subscriber subs s) s a' w' = Inr w''
          \<and> called w'' = called w' @ map (\<lambda>c. (c, a')) (cbListeners (streams w' s)) @ rest')
       \<and> (\<exists>r'. push act deact cb fuel (child r) b (r, tr)
                   = (Returned (), r', tr @ map (\<lambda>k. (k, b)) (xs @ x # ys @ [z]))
              \<and> child r' = MultiObserver m
              \<and> listeners r' m = map Obs (xs @ x # ys @ [z]))"
proof -
  have "\<forall>x\<in>UNIV. set (eventListeners (streams w x)) \<subseteq> UNIV" "s \<in> UNIV"
       "s \<notin> {x \<in> UNIV. s < x}"
    by simp_all
  from publish_subscribing [OF assms(1) this assms(2), of subs a]
  obtain w' rest where w': "stream_publish n (subscriber subs s) s a w = Inr w'"
      "grown subs s (map (\<lambda>c. (c, a)) (cbListeners (streams w s)) @ rest) w w'"
      "called w' = called w @ map (\<lambda>c. (c, a)) (cbListeners (streams w s)) @ rest"
      "\<forall>cv\<in>set rest. \<exists>x\<in>UNIV. s < x \<and> fst cv \<in> set (cbListeners (streams w x))"
    by blast
  have o: "ordered N w'"
    using w'(2) assms(1) by (rule ordered_grown)
  have "\<forall>x\<in>UNIV. set (eventListeners (streams w' x)) \<subseteq> UNIV" "s \<in> UNIV"
       "s \<notin> {x \<in> UNIV. s < x}"
    by simp_all
  from publish_subscribing [OF o this assms(2), of subs a']
  obtain w'' rest' where w'': "stream_publish n (subscriber subs s) s a' w' = Inr w''"
      "called w'' = called w' @ map (\<lambda>c. (c, a')) (cbListeners (streams w' s)) @ rest'"
    by blast
  have list: "cbListeners (streams w' s)
               = cbListeners (streams w s)
                 @ subscribed_by subs (map (\<lambda>c. (c, a)) (cbListeners (streams w s)) @ rest)"
    using w'(2) by (simp add: grown_def)
  have down: "\<forall>cv\<in>set rest. \<exists>x. s < x \<and> fst cv \<in> set (cbListeners (streams w x))"
    using w'(4) by simp
  have streams_part: "\<exists>w' rest w'' rest'.
            stream_publish n (subscriber subs s) s a w = Inr w'
          \<and> called w' = called w @ map (\<lambda>c. (c, a)) (cbListeners (streams w s)) @ rest
          \<and> (\<forall>cv\<in>set rest. \<exists>x. s < x \<and> fst cv \<in> set (cbListeners (streams w x)))
          \<and> cbListeners (streams w' s)
               = cbListeners (streams w s)
                 @ subscribed_by subs (map (\<lambda>c. (c, a)) (cbListeners (streams w s)) @ rest)
          \<and> stream_publish n (subscriber subs s) s a' w' = Inr w''
          \<and> called w'' = called w' @ map (\<lambda>c. (c, a')) (cbListeners (streams w' s)) @ rest'"
    using w'(1,3) down list w'' by (intro exI [of _ w'] exI [of _ rest] exI [of _ w''] exI [of _ rest'] conjI)
  let ?r = "r\<lparr>nrOfListeners := nrOfListeners r + 1,
              listeners := (listeners r)(m := map Obs (xs @ x # ys @ [z]))\<rparr>"
  have "push act deact cb fuel (child r) b (r, tr)
          = (Returned (), ?r, tr @ map (\<lambda>k. (k, b)) (xs @ x # ys @ [z]))"
    by (rule push_added_listener [where cb = cb and a = b, OF assms(3-8)])
  then have multi_part: "\<exists>r'. push act deact cb fuel (child r) b (r, tr)
                   = (Returned (), r', tr @ map (\<lambda>k. (k, b)) (xs @ x # ys @ [z]))
              \<and> child r' = MultiObserver m
              \<and> listeners r' m = map Obs (xs @ x # ys @ [z])"
    using assms(3) by simp
  from streams_part multi_part show ?thesis
    by (rule conjI)
qed

theorem late_subscriber_not_called_witness:
  "ordered 2 mapped_and_subscribed \<and> 2 - 0 < (3::nat)
   \<and> child two_listeners = MultiObserver 0 \<and> 2 \<le> nrOfListeners two_listeners
   \<and> listeners two_listeners 0 = map Obs ([] @ 1 # [2])
   \<and> subscribing_listener 1 3 1 (7::nat) = [AddListener (Obs 3)]
   \<and> subscribing_listener 1 3 2 (7::nat) = [] \<and> subscribing_listener 1 3 3 (7::nat) = []
   \<and> length ([]::nat list) + length [2::nat] + 5 \<le> (6::nat)
   \<and> (\<exists>w'. stream_publish 3 (subscriber late_subscription 0) 0 (VNum 5) mapped_and_subscribed
               = Inr w'
         \<and> called w' = [(0, VNum 5)] \<and> cbListeners (streams w' 0) = [0, 1])
   \<and> snd (snd (push (adopt Push) (adopt Inactive) (subscribing_listener 1 3) 6
                  (child two_listeners) (7::nat) (two_listeners, [])))
       = [(1, 7), (2, 7), (3, 7)]"
proof -
  have h: "ordered 2 mapped_and_subscribed" "2 - 0 < (3::nat)"
    by (simp_all add: ordered_def mapped_and_subscribed_def subscribe_def map_stream_def
          listen_def new_stream_def sinkStream_def empty_sworld_def)
  have m: "child two_listeners = MultiObserver 0" "2 \<le> nrOfListeners two_listeners"
       "listeners two_listeners 0 = map Obs ([] @ 1 # [2])"
    by (simp_all add: two_listeners_def addListener_def activate_def adopt_def new_reactive_def
                      new_MultiObserver_def)
  have q: "subscribing_listener 1 3 1 (7::nat) = [AddListener (Obs 3)]"
       "\<forall>k\<in>set [] \<union> set [2] \<union> {3}. subscribing_listener 1 3 k (7::nat) = []"
       "length ([]::nat list) + length [2::nat] + 5 \<le> (6::nat)"
    by (simp_all add: subscribing_listener_def)
  have c: "called mapped_and_subscribed = []" "cbListeners (streams mapped_and_subscribed 0) = [0]"
    and nocb: "\<And>x. 0 < x \<Longrightarrow> cbListeners (streams mapped_and_subscribed x) = []"
    by (simp_all add: mapped_and_subscribed_def subscribe_def map_stream_def
          listen_def new_stream_def sinkStream_def empty_sworld_def)
  note t = late_subscriber_not_called [where subs = late_subscription and a = "VNum 5"
             and a' = "VNum 6" and cb = "subscribing_listener 1 3" and b = "7::nat"
             and act = "adopt Push" and deact = "adopt Inactive" and tr = "[]"
             and xs = "[]" and x = 1 and ys = "[2]" and z = 3, OF h m q]
  from t obtain w' rest where w':
      "stream_publish 3 (subscriber late_subscription 0) 0 (VNum 5) mapped_and_subscribed = Inr w'"
      "called w' = called mapped_and_subscribed
                     @ map (\<lambda>c. (c, VNum 5)) (cbListeners (streams mapped_and_subscribed 0)) @ rest"
      "\<forall>cv\<in>set rest. \<exists>x. 0 < x \<and> fst cv \<in> set (cbListeners (streams mapped_and_subscribed x))"
      "cbListeners (streams w' 0)
         = cbListeners (streams mapped_and_subscribed 0)
           @ subscribed_by late_subscription
               (map (\<lambda>c. (c, VNum 5)) (cbListeners (streams mapped_and_subscribed 0)) @ rest)"
    by blast
  have "rest = []"
  proof (cases rest)
    case Nil
    then show ?thesis .
  next
    case (Cons cv cvs)
    then obtain x where "0 < x" "fst cv \<in> set (cbListeners (streams mapped_and_subscribed x))"
      using w'(3) by auto
    then show ?thesis
      using nocb by simp
  qed
  then have "called w' = [(0, VNum 5)]" "cbListeners (streams w' 0) = [0, 1]"
    using w'(2,4) c by (simp_all add: subscribed_by_def late_subscription_def)
  with w'(1) have streams_part:
    "\<exists>w'. stream_publish 3 (subscriber late_subscription 0) 0 (VNum 5) mapped_and_subscribed
               = Inr w'
         \<and> called w' = [(0, VNum 5)] \<and> cbListeners (streams w' 0) = [0, 1]"
    by blast
  from t have multi_part: "snd (snd (push (adopt Push) (adopt Inactive) (subscribing_listener 1 3) 6
                  (child two_listeners) (7::nat) (two_listeners, [])))
       = [(1, 7), (2, 7), (3, 7)]"
    by (elim conjE exE) simp
  have q': "subscribing_listener 1 3 2 (7::nat) = []" "subscribing_listener 1 3 3 (7::nat) = []"
    by (simp_all add: subscribing_listener_def)
  from h m q(1) q' q(3) streams_part multi_part show ?thesis
    by (intro conjI)
qed

lemma occurrences_of_append:
  "occurrences v' = occurrences v @ ocs
     \<Longrightarrow> occurrences_of z v' = occurrences_of z v @ map snd (filter (\<lambda>oc. fst oc = z) ocs)"
  by (simp add: occurrences_of_def)

lemma occurrences_of_frame:
  "occurrences v' = occurrences v @ ocs \<Longrightarrow> z \<notin> fst ` set ocs
     \<Longrightarrow> occurrences_of z v' = occurrences_of z v"
proof -
  assume a: "occurrences v' = occurrences v @ ocs" and z: "z \<notin> fst ` set ocs"
  have "filter (\<lambda>oc. fst oc = z) ocs = []"
    using z by (auto simp: filter_empty_conv)
  then show ?thesis
    using occurrences_of_append [OF a, of z] by simp
qed

lemma leaf_publish:
  assumes "inert H" and "eventListeners (streams w m) = []"
  shows "\<exists>w'. stream_publish (Suc k) H m a w = Inr w' \<and> same_shape w w'
           \<and> occurrences w' = occurrences w @ [(m, a)]"
proof -
  let ?w1 = "(upd_stream m (\<lambda>x. x\<lparr>last' := a\<rparr>) w)\<lparr>occurrences := occurrences w @ [(m, a)]\<rparr>"
  obtain w2 where cb: "for_loop (notify_callback H m a) 0 (length (cbListeners (streams ?w1 m))) ?w1
                         = Inr w2"
    and w2: "streams w2 = streams ?w1" "occurrences w2 = occurrences ?w1"
    using notify_callbacks_inert [OF assms(1), of m a ?w1] by blast
  have "eventListeners (streams w2 m) = []"
    using w2(1) assms(2) by simp
  then have "stream_publish (Suc k) H m a w = Inr w2"
    using cb by (simp add: publish_def Let_def for_loop_done)
  moreover have "same_shape w w2"
    using w2(1) by (simp add: same_shape_def)
  ultimately show ?thesis
    using w2(2) by simp
qed

lemma chain_publish:
  assumes "inert H" and "eventListeners (streams w p) = [c]" and "p \<noteq> c"
      and "eventListeners (streams w c) = []" and "variant (streams w c) = MapStream fn"
  shows "\<exists>w'. stream_publish (Suc (Suc k)) H p a w = Inr w' \<and> same_shape w w'
           \<and> occurrences w' = occurrences w @ [(p, a), (c, fn a)]"
proof -
  let ?w1 = "(upd_stream p (\<lambda>x. x\<lparr>last' := a\<rparr>) w)\<lparr>occurrences := occurrences w @ [(p, a)]\<rparr>"
  obtain w2 where cb: "for_loop (notify_callback H p a) 0 (length (cbListeners (streams ?w1 p))) ?w1
                         = Inr w2"
    and w2: "streams w2 = streams ?w1" "occurrences w2 = occurrences ?w1"
    using notify_callbacks_inert [OF assms(1), of p a ?w1] by blast
  have shape2: "same_shape w w2"
    using w2(1) by (simp add: same_shape_def)
  have es: "eventListeners (streams w2 p) = [c]" "eventListeners (streams w2 c) = []"
           "variant (streams w2 c) = MapStream fn"
    using w2(1) assms(2-5) by simp_all
  obtain w3 where w3: "stream_publish (Suc k) H c (fn a) w2 = Inr w3" "same_shape w2 w3"
      "occurrences w3 = occurrences w2 @ [(c, fn a)]"
    using leaf_publish [OF assms(1) es(2), of k "fn a"] by blast
  have "notify_consumer (stream_publish (Suc k) H) p a 0 w2 = Inr w3"
    using es w3(1) by (simp add: notify_consumer_def push_stream_def del: stream_publish.simps)
  then have "for_loop (notify_consumer (stream_publish (Suc k) H) p a) 0 (Suc 0) w2 = Inr w3"
    by (simp add: for_loop_step for_loop_done del: stream_publish.simps)
  then have "stream_publish (Suc (Suc k)) H p a w = Inr w3"
    using cb es(1) by (simp add: publish_def Let_def del: upd_stream_simps)
  moreover have "same_shape w w3"
    using shape2 w3(2) same_shape_trans by blast
  ultimately show ?thesis
    using w3(3) w2(2) by simp
qed

lemma map_setup_same_shape:
  "same_shape w v \<Longrightarrow> map_setup N f g s mi m1 m2 m3 w \<Longrightarrow> map_setup N f g s mi m1 m2 m3 v"
  by (simp add: map_setup_def same_shape_def ordered_def)


lemma map_setup_publish:
  assumes "inert H" and "map_setup N f g s mi m1 m2 m3 w" and "N - s < n"
  shows "\<exists>w'. stream_publish n H s a w = Inr w' \<and> same_shape w w'
           \<and> occurrences_of s w' = occurrences_of s w @ [a]
           \<and> occurrences_of mi w' = occurrences_of mi w @ [a]
           \<and> occurrences_of m2 w' = occurrences_of m2 w @ [g (f a)]
           \<and> occurrences_of m3 w' = occurrences_of m3 w @ [g (f a)]"
proof -
  have ord: "ordered N w" and lt: "s < mi" "mi < m1" "m1 < m2" "m2 < m3" "m3 < N"
    using assms(2) by (simp_all add: map_setup_def)
  obtain es where es: "eventListeners (streams w s) = es @ [mi, m1, m3]"
      and fresh: "set es \<inter> {mi, m1, m2, m3} = {}"
    using assms(2) by (auto simp: map_setup_def)
  have leaves: "eventListeners (streams w mi) = []" "eventListeners (streams w m1) = [m2]"
      "eventListeners (streams w m2) = []" "eventListeners (streams w m3) = []"
    and variants: "variant (streams w mi) = MapStream (\<lambda>x. x)"
      "variant (streams w m1) = MapStream f" "variant (streams w m2) = MapStream g"
      "variant (streams w m3) = MapStream (g \<circ> f)"
    and priv: "\<forall>x. x \<notin> {s, mi, m1, m2, m3}
            \<longrightarrow> set (eventListeners (streams w x)) \<inter> {mi, m1, m2, m3} = {}"
    using assms(2) by (simp_all add: map_setup_def)
  have "3 \<le> n"
    using assms(3) lt by linarith
  then obtain k where n: "n = Suc (Suc (Suc k))"
    using fuel_3 by blast
  let ?k = "Suc (Suc k)"
  let ?L = "length es"
  let ?T = "{x. s < x \<and> x \<notin> {mi, m1, m2, m3}}"
  let ?w1 = "(upd_stream s (\<lambda>x. x\<lparr>last' := a\<rparr>) w)\<lparr>occurrences := occurrences w @ [(s, a)]\<rparr>"
  obtain w2 where cb: "for_loop (notify_callback H s a) 0 (length (cbListeners (streams ?w1 s))) ?w1
                         = Inr w2"
    and w2: "streams w2 = streams ?w1" "occurrences w2 = occurrences ?w1"
    using notify_callbacks_inert [OF assms(1), of s a ?w1] by blast
  have shape2: "same_shape w w2"
    using w2(1) by (simp add: same_shape_def)
  let ?Inv = "\<lambda>i v. same_shape w v
      \<and> occurrences_of s v = occurrences_of s w @ [a]
      \<and> occurrences_of mi v = occurrences_of mi w @ (if ?L < i then [a] else [])
      \<and> occurrences_of m2 v = occurrences_of m2 w @ (if ?L + 1 < i then [g (f a)] else [])
      \<and> occurrences_of m3 v = occurrences_of m3 w @ (if ?L + 2 < i then [g (f a)] else [])"
  have inv0: "?Inv 0 w2"
    using shape2 w2(2) lt by (simp add: occurrences_of_def)
  have step: "\<exists>v'. notify_consumer (stream_publish ?k H) s a j v = Inr v' \<and> ?Inv (Suc j) v'"
    if j: "j < ?L + 3" and inv: "?Inv j v" for j v
  proof -
    have sv: "same_shape w v"
      using inv by blast
    have esv: "eventListeners (streams v s) = es @ [mi, m1, m3]"
      using sv es by (simp add: same_shape_def)
    have nc: "notify_consumer (stream_publish ?k H) s a j v
                = push_stream (stream_publish ?k H) ((es @ [mi, m1, m3]) ! j) a v"
      using j esv by (simp add: notify_consumer_def)
    consider (old) "j < ?L" | (mi) "j = ?L" | (m1) "j = ?L + 1" | (m3) "j = ?L + 2"
      using j by linarith
    then show ?thesis
    proof cases
      case old
      let ?e = "es ! j"
      have ej: "(es @ [mi, m1, m3]) ! j = ?e"
        using old by (simp add: nth_append)
      have mem: "?e \<in> set es"
        using old by simp
      then have "?e \<in> set (eventListeners (streams w s))"
        using es by simp
      then have e: "s < ?e" "?e < N" "?e \<notin> {mi, m1, m2, m3}"
        using ord fresh mem by (auto simp: ordered_def)
      have keep: "?Inv (Suc j) v"
        using inv old by simp
      consider "push_stream (stream_publish ?k H) ?e a v = Inr v"
        | a' where "push_stream (stream_publish ?k H) ?e a v = stream_publish ?k H ?e a' v"
        using push_stream_cases by blast
      then show ?thesis
      proof cases
        case 1
        then show ?thesis using nc ej keep by simp
      next
        case 2
        have o: "ordered N v"
          using sv ord ordered_same_shape by blast
        have c: "\<forall>x\<in>?T. set (eventListeners (streams v x)) \<subseteq> ?T"
        proof (intro ballI subsetI)
          fix x y assume x: "x \<in> ?T" and y: "y \<in> set (eventListeners (streams v x))"
          then have y': "y \<in> set (eventListeners (streams w x))"
            using sv by (simp add: same_shape_def)
          then have "x < y" using ord by (auto simp: ordered_def)
          moreover have "x \<notin> {s, mi, m1, m2, m3}"
            using x by auto
          then have "set (eventListeners (streams w x)) \<inter> {mi, m1, m2, m3} = {}"
            using priv by blast
          then have "y \<notin> {mi, m1, m2, m3}"
            using y' by blast
          ultimately show "y \<in> ?T" using x by simp
        qed
        have eT: "?e \<in> ?T" using e by simp
        have "N - ?e < ?k"
          using e assms(3) n by linarith
        from publish_closed [OF assms(1) o c eT this, of a']
        obtain v' ocs where v': "stream_publish ?k H ?e a' v = Inr v'" "same_shape v v'"
            "occurrences v' = occurrences v @ (?e, a') # ocs"
            "fst ` set ocs \<subseteq> {x \<in> ?T. ?e < x}"
          by blast
        have out: "z \<notin> fst ` set ((?e, a') # ocs)" if "z \<in> {s, mi, m1, m2, m3}" for z
          using that v'(4) e by auto
        have same: "occurrences_of z v' = occurrences_of z v" if "z \<in> {s, mi, m1, m2, m3}" for z
          using occurrences_of_frame [OF v'(3) out [OF that]] .
        have "same_shape w v'"
          using sv v'(2) same_shape_trans by blast
        then have "?Inv (Suc j) v'"
          using keep same by simp
        then show ?thesis
          using nc ej 2 v'(1) by (simp del: stream_publish.simps)
      qed
    next
      case mi
      have ej: "(es @ [mi, m1, m3]) ! j = mi"
        using mi by (simp add: nth_append)
      have "eventListeners (streams v mi) = []" "variant (streams v mi) = MapStream (\<lambda>x. x)"
        using sv leaves variants by (simp_all add: same_shape_def)
      moreover from leaf_publish [OF assms(1) this(1), of "Suc k" a]
      obtain v' where v': "stream_publish ?k H mi a v = Inr v'" "same_shape v v'"
          "occurrences v' = occurrences v @ [(mi, a)]"
        by blast
      ultimately have run: "notify_consumer (stream_publish ?k H) s a j v = Inr v'"
        using nc ej by (simp add: push_stream_def del: stream_publish.simps)
      have "same_shape w v'"
        using sv v'(2) same_shape_trans by blast
      moreover have "occurrences_of z v' = occurrences_of z v @ (if z = mi then [a] else [])" for z
        using occurrences_of_append [OF v'(3), of z] by simp
      ultimately have "?Inv (Suc j) v'"
        using inv mi lt by simp
      with run show ?thesis by blast
    next
      case m1
      have ej: "(es @ [mi, m1, m3]) ! j = m1"
        using m1 by (simp add: nth_append)
      have c: "eventListeners (streams v m1) = [m2]" "m1 \<noteq> m2"
              "eventListeners (streams v m2) = []" "variant (streams v m2) = MapStream g"
        and vm1: "variant (streams v m1) = MapStream f"
        using sv leaves variants lt by (simp_all add: same_shape_def)
      from chain_publish [OF assms(1) c, of k "f a"]
      obtain v' where v': "stream_publish ?k H m1 (f a) v = Inr v'" "same_shape v v'"
          "occurrences v' = occurrences v @ [(m1, f a), (m2, g (f a))]"
        by blast
      have run: "notify_consumer (stream_publish ?k H) s a j v = Inr v'"
        using nc ej vm1 v'(1) by (simp add: push_stream_def del: stream_publish.simps)
      have "same_shape w v'"
        using sv v'(2) same_shape_trans by blast
      moreover have "occurrences_of z v' = occurrences_of z v
                       @ (if z = m1 then [f a] else []) @ (if z = m2 then [g (f a)] else [])" for z
        using occurrences_of_append [OF v'(3), of z] by simp
      ultimately have "?Inv (Suc j) v'"
        using inv m1 lt by simp
      with run show ?thesis by blast
    next
      case m3
      have ej: "(es @ [mi, m1, m3]) ! j = m3"
        using m3 by (simp add: nth_append)
      have "eventListeners (streams v m3) = []" "variant (streams v m3) = MapStream (g \<circ> f)"
        using sv leaves variants by (simp_all add: same_shape_def)
      moreover from leaf_publish [OF assms(1) this(1), of "Suc k" "g (f a)"]
      obtain v' where v': "stream_publish ?k H m3 (g (f a)) v = Inr v'" "same_shape v v'"
          "occurrences v' = occurrences v @ [(m3, g (f a))]"
        by blast
      ultimately have run: "notify_consumer (stream_publish ?k H) s a j v = Inr v'"
        using nc ej by (simp add: push_stream_def del: stream_publish.simps)
      have "same_shape w v'"
        using sv v'(2) same_shape_trans by blast
      moreover have "occurrences_of z v' = occurrences_of z v @ (if z = m3 then [g (f a)] else [])" for z
        using occurrences_of_append [OF v'(3), of z] by simp
      ultimately have "?Inv (Suc j) v'"
        using inv m3 lt by simp
      with run show ?thesis by blast
    qed
  qed
  have "\<exists>w'. for_loop (notify_consumer (stream_publish ?k H) s a) 0 (?L + 3) w2 = Inr w'
          \<and> ?Inv (max 0 (?L + 3)) w'"
    using inv0 by (rule for_loop_invariant [where Inv = ?Inv]) (use step in simp)
  then obtain w' where w': "for_loop (notify_consumer (stream_publish ?k H) s a) 0 (?L + 3) w2 = Inr w'"
      and final: "?Inv (?L + 3) w'"
    by auto
  have len: "length (eventListeners (streams w2 s)) = ?L + 3"
    using w2(1) es by simp
  have "stream_publish n H s a w = publish (stream_publish ?k H) H s a w"
    unfolding n by simp
  then have "stream_publish n H s a w = Inr w'"
    using cb w' len by (simp add: publish_def Let_def del: stream_publish.simps)
  with final show ?thesis by simp
qed


lemma map_setup_publish_all:
  assumes "inert H" and "N - s < n"
  shows "map_setup N f g s mi m1 m2 m3 w
     \<Longrightarrow> \<exists>w'. iterate (stream_publish n H s) as w = Inr w'
           \<and> occurrences_of s w' = occurrences_of s w @ as
           \<and> occurrences_of mi w' = occurrences_of mi w @ as
           \<and> occurrences_of m2 w' = occurrences_of m2 w @ map (g \<circ> f) as
           \<and> occurrences_of m3 w' = occurrences_of m3 w @ map (g \<circ> f) as"
proof (induction as arbitrary: w)
  case Nil
  then show ?case by simp
next
  case (Cons a as)
  from map_setup_publish [OF assms(1) Cons.prems assms(2), of a]
  obtain v where v: "stream_publish n H s a w = Inr v" "same_shape w v"
      "occurrences_of s v = occurrences_of s w @ [a]"
      "occurrences_of mi v = occurrences_of mi w @ [a]"
      "occurrences_of m2 v = occurrences_of m2 w @ [g (f a)]"
      "occurrences_of m3 v = occurrences_of m3 w @ [g (f a)]"
    by blast
  have "map_setup N f g s mi m1 m2 m3 v"
    using v(2) Cons.prems by (rule map_setup_same_shape)
  from Cons.IH [OF this]
  obtain w' where w': "iterate (stream_publish n H s) as v = Inr w'"
      "occurrences_of s w' = occurrences_of s v @ as"
      "occurrences_of mi w' = occurrences_of mi v @ as"
      "occurrences_of m2 w' = occurrences_of m2 v @ map (g \<circ> f) as"
      "occurrences_of m3 w' = occurrences_of m3 v @ map (g \<circ> f) as"
    by blast
  have "iterate (stream_publish n H s) (a # as) w = Inr w'"
    using v(1) w'(1) by (simp del: stream_publish.simps)
  then show ?case
    using v(3-6) w'(2-5) by simp
qed

lemma map_stream_result:
  assumes "map_stream fn s w = (e, w')" and "s \<noteq> nextStream w"
  shows "e = nextStream w" and "nextStream w' = Suc (nextStream w)"
    and "occurrences w' = occurrences w"
    and "streams w' = (streams w)
           (nextStream w := \<lparr>variant = MapStream fn, last' = VUndefined, eventListeners = [],
                             cbListeners = []\<rparr>,
            s := (streams w s)\<lparr>eventListeners := eventListeners (streams w s) @ [nextStream w]\<rparr>)"
  using assms by (auto simp: map_stream_def listen_def new_stream_def upd_stream_def)

lemma map_setup_built:
  assumes "ordered (nextStream w0) w0" and "s < nextStream w0"
      and "map_stream (\<lambda>x. x) s w0 = (mi, w1)"
      and "map_stream f s w1 = (m1, w2)"
      and "map_stream g m1 w2 = (m2, w3)"
      and "map_stream (g \<circ> f) s w3 = (m3, w4)"
  shows "map_setup (nextStream w4) f g s mi m1 m2 m3 w4"
proof -
  let ?M = "nextStream w0"
  note r1 = map_stream_result [OF assms(3)]
  have s1: "s \<noteq> ?M" using assms(2) by simp
  have mi: "mi = ?M" and n1: "nextStream w1 = Suc ?M" and st1: "streams w1 = (streams w0)
           (?M := \<lparr>variant = MapStream (\<lambda>x. x), last' = VUndefined, eventListeners = [],
                             cbListeners = []\<rparr>,
            s := (streams w0 s)\<lparr>eventListeners := eventListeners (streams w0 s) @ [?M]\<rparr>)"
    using r1 [OF s1] by simp_all
  have s2: "s \<noteq> nextStream w1" using assms(2) n1 by simp
  note r2 = map_stream_result [OF assms(4) s2]
  have m1: "m1 = Suc ?M" and n2: "nextStream w2 = Suc (Suc ?M)"
    using r2(1,2) n1 by simp_all
  have s3: "m1 \<noteq> nextStream w2" using m1 n2 by simp
  note r3 = map_stream_result [OF assms(5) s3]
  have m2: "m2 = Suc (Suc ?M)" and n3: "nextStream w3 = Suc (Suc (Suc ?M))"
    using r3(1,2) n2 by simp_all
  have s4: "s \<noteq> nextStream w3" using assms(2) n3 by simp
  note r4 = map_stream_result [OF assms(6) s4]
  have m3: "m3 = Suc (Suc (Suc ?M))" and n4: "nextStream w4 = Suc (Suc (Suc (Suc ?M)))"
    using r4(1,2) n3 by simp_all
  have st4: "streams w4 = (streams w0)
      (?M := \<lparr>variant = MapStream (\<lambda>x. x), last' = VUndefined, eventListeners = [],
              cbListeners = []\<rparr>,
       Suc ?M := \<lparr>variant = MapStream f, last' = VUndefined, eventListeners = [Suc (Suc ?M)],
              cbListeners = []\<rparr>,
       Suc (Suc ?M) := \<lparr>variant = MapStream g, last' = VUndefined, eventListeners = [],
              cbListeners = []\<rparr>,
       Suc (Suc (Suc ?M)) := \<lparr>variant = MapStream (g \<circ> f), last' = VUndefined,
              eventListeners = [], cbListeners = []\<rparr>,
       s := (streams w0 s)\<lparr>eventListeners := eventListeners (streams w0 s)
              @ [?M, Suc ?M, Suc (Suc (Suc ?M))]\<rparr>)"
    unfolding r4(4) r3(4) r2(4) st1 n1 n2 n3 m1
    using assms(2) by (auto simp: fun_eq_iff)
  have old: "\<forall>x. \<forall>e \<in> set (eventListeners (streams w0 x)). x < e \<and> e < ?M"
    using assms(1) by (simp add: ordered_def)
  have o: "ordered (nextStream w4) w4"
    unfolding ordered_def n4 st4 using old assms(2) by (auto simp: less_Suc_eq)
  have fresh: "set (eventListeners (streams w0 s)) \<inter> {mi, m1, m2, m3} = {}"
    using old mi m1 m2 m3 by fastforce
  have priv: "\<forall>x. x \<notin> {s, mi, m1, m2, m3}
            \<longrightarrow> set (eventListeners (streams w4 x)) \<inter> {mi, m1, m2, m3} = {}"
    unfolding st4 using old mi m1 m2 m3 by fastforce
  show ?thesis
    unfolding map_setup_def
    using o fresh priv assms(2) by (simp add: st4 mi m1 m2 m3 n4)
qed

text \<open>
  C7.  Let \<open>s\<close> be a stream of a world in which every consumer was created after the
  stream it listens to, and let the callbacks leave the streams alone and publish
  nothing.  After
  \<^verbatim>\<open>mi = s.map(x => x)\<close>, \<^verbatim>\<open>m1 = s.map(f)\<close>, \<^verbatim>\<open>m2 = m1.map(g)\<close> and
  \<^verbatim>\<open>m3 = s.map(x => g(f(x)))\<close>, publishing any sequence of values on \<open>s\<close> returns
  (with a call-depth bound above \<open>nextStream - s\<close>); \<open>mi\<close> publishes the same
  sequence of occurrences as \<open>s\<close>, and \<open>m2\<close> the same sequence as \<open>m3\<close>.
\<close>

theorem map_functor_laws:
  assumes "inert H"
      and "ordered (nextStream w0) w0" and "s < nextStream w0"
      and "map_stream (\<lambda>x. x) s w0 = (mi, w1)"
      and "map_stream f s w1 = (m1, w2)"
      and "map_stream g m1 w2 = (m2, w3)"
      and "map_stream (g \<circ> f) s w3 = (m3, w4)"
      and "nextStream w4 - s < n"
  shows "\<exists>w'. iterate (stream_publish n H s) as w4 = Inr w'
           \<and> occurrences_of s w' = occurrences_of s w4 @ as
           \<and> occurrences_of mi w' = occurrences_of mi w4 @ as
           \<and> occurrences_of m2 w' = occurrences_of m2 w4 @ map (g \<circ> f) as
           \<and> occurrences_of m3 w' = occurrences_of m3 w4 @ map (g \<circ> f) as"
  using map_setup_publish_all [OF assms(1) assms(8) map_setup_built [OF assms(2-7)]] .

theorem map_functor_laws_witness:
  "\<exists>w'. iterate (stream_publish 6 spy 0) [VNum 3, VNum 5] four_maps = Inr w'
       \<and> occurrences_of 0 w' = [VNum 3, VNum 5]
       \<and> occurrences_of 1 w' = [VNum 3, VNum 5]
       \<and> occurrences_of 3 w' = [VArr [VArr [VNum 3], VArr [VNum 3]], VArr [VArr [VNum 5], VArr [VNum 5]]]
       \<and> occurrences_of 4 w' = [VArr [VArr [VNum 3], VArr [VNum 3]], VArr [VArr [VNum 5], VArr [VNum 5]]]"
proof -
  let ?w0 = "snd (sinkStream empty_sworld)"
  let ?w1 = "snd (map_stream (\<lambda>x. x) 0 ?w0)"
  let ?w2 = "snd (map_stream wrap 0 ?w1)"
  let ?w3 = "snd (map_stream twice 2 ?w2)"
  have n: "nextStream ?w0 = 1" "nextStream ?w1 = 2" "nextStream ?w2 = 3" "nextStream ?w3 = 4"
          "nextStream four_maps = 5"
    by (simp_all add: four_maps_def map_stream_def listen_def new_stream_def sinkStream_def
          empty_sworld_def)
  have h: "inert spy" "ordered (nextStream ?w0) ?w0" "0 < nextStream ?w0"
      "map_stream (\<lambda>x. x) 0 ?w0 = (1, ?w1)"
      "map_stream wrap 0 ?w1 = (2, ?w2)"
      "map_stream twice 2 ?w2 = (3, ?w3)"
      "map_stream (twice \<circ> wrap) 0 ?w3 = (4, four_maps)"
      "nextStream four_maps - 0 < 6"
    using n
    by (simp_all add: inert_spy ordered_def four_maps_def map_stream_def listen_def
          new_stream_def sinkStream_def empty_sworld_def)
  have e: "occurrences four_maps = []"
    by (simp add: four_maps_def map_stream_def listen_def new_stream_def sinkStream_def
          empty_sworld_def)
  from map_functor_laws [OF h, of "[VNum 3, VNum 5]"] e
  show ?thesis
    by (simp add: occurrences_of_def wrap_def twice_def del: stream_publish.simps)
qed

subsection \<open>Semantic futures\<close>

text \<open>
  C10.  When the semantic occurrences of \<open>f1\<close> and \<open>f2\<close> have the same time, the
  semantic result of \<open>combine(f1, f2)\<close> is the occurrence of \<open>f1\<close>.
\<close>

theorem combine_semantic_tie:
  assumes "semantic f1 = Inr (Occurrence t v1)"
      and "semantic f2 = Inr (Occurrence t v2)"
  shows "semantic (CombineFuture f1 f2) = Inr (Occurrence t v1)"
  using assms by (cases t) simp_all

theorem combine_semantic_tie_witness:
  "semantic (TestFuture (Tick 3) (1::nat)) = Inr (Occurrence (Tick 3) 1) \<and>
   semantic (TestFuture (Tick 3) (2::nat)) = Inr (Occurrence (Tick 3) 2) \<and>
   semantic (CombineFuture (TestFuture (Tick 3) 1) (TestFuture (Tick 3) (2::nat)))
     = Inr (Occurrence (Tick 3) 1)"
  using combine_semantic_tie [of "TestFuture (Tick 3) (1::nat)" "Tick 3" 1
                                 "TestFuture (Tick 3) 2" 2]
  by simp

end
